theory Spec2Isabelle
  imports Complex_Main "HOL-Library.FSet" "HOL-Library.Product_Lexorder" "HOL-Library.Log_Nat"
begin

section \<open>The selection engine of js/algorithms.js (class CallAlgorithm)\<close>

text \<open>
  The embedding follows the first class definition of \<^verbatim>\<open>js/algorithms.js\<close>
  (lines 6 to 541), method by method and under the names of the source.

  \<^item> A student is a record with the fields the engine reads. \<^verbatim>\<open>callCount\<close> and
    \<^verbatim>\<open>lastCalled\<close> may be absent, which the source handles by \<^verbatim>\<open>s.callCount || 0\<close>
    and \<^verbatim>\<open>student.lastCalled ? ... : new Date(0)\<close>.
  \<^item> The engine's fields are a record; every method takes the engine and, where it
    assigns a field, returns the new one.
  \<^item> \<^verbatim>\<open>null\<close> and \<^verbatim>\<open>undefined\<close> are \<open>None\<close>. Reading a property of \<^verbatim>\<open>undefined\<close>
    throws; this is the value \<open>Inl TypeError\<close>.
  \<^item> \<^verbatim>\<open>Math.random()\<close>, the comparator-driven shuffle and \<^verbatim>\<open>new Date()\<close> are inputs of
    a call, collected in the record \<open>draws\<close>.
  \<^item> Numbers are doubles: a rational that a double holds, every operation of the source
    whose exact result may not be one being rounded to the nearest double.
\<close>

subsection \<open>Data\<close>

record student =
  student_id :: nat
  name :: string
  callCount :: "int option"
  lastCalled :: "int option"

datatype algorithm = Fair | Weighted | LeastCalled | RoundRobin | TimeBalanced | Group | Other

record options =
  opt_avoidImmediateRepeat :: "bool option"
  opt_groupCount :: "int option"

record engine =
  storageManager :: "(nat \<Rightarrow> algorithm \<Rightarrow> bool) option"
  lastSelectedStudent :: "nat option"
  selectedStudents :: "nat fset"
  avoidImmediateRepeat :: bool

record draws =
  rnd1 :: rat
  rnd2 :: rat
  shuffle :: "student list \<Rightarrow> student list"
  clock :: "nat \<Rightarrow> int"

text \<open>The one exception the engine can throw: a property read of \<^verbatim>\<open>undefined\<close>.\<close>

datatype error = TypeError

text \<open>
  A promise as its holder sees it when the call that made it returns: settled, with the
  value it is fulfilled with (\<open>Inr\<close>) or the error it is rejected with (\<open>Inl\<close>), or
  still pending.
\<close>

datatype 'a promise = Settled 'a | Pending

text \<open>The constructor: no student selected, an empty set, repeat-avoidance off.\<close>

definition constructor :: "(nat \<Rightarrow> algorithm \<Rightarrow> bool) option \<Rightarrow> engine" where
  "constructor sm =
     \<lparr>storageManager = sm, lastSelectedStudent = None, selectedStudents = {||},
      avoidImmediateRepeat = False\<rparr>"

subsection \<open>Numbers\<close>

text \<open>
  A JavaScript number is an IEEE 754 binary64 value. The finite ones are the rationals
  \<open>m * 2 ^ q\<close> for integers \<open>m\<close> and \<open>q\<close> with \<open>\<bar>m\<bar> \<le> 2 ^ 53\<close> and \<open>- 1074 \<le> q\<close>, and an
  arithmetic operation returns its exact result rounded to the nearest of them, a tie
  going to the even significand. For a positive \<open>x\<close>, \<open>binade x\<close> is the exponent \<open>e\<close>
  with \<open>2 ^ e \<le> x < 2 ^ (e + 1)\<close> and \<open>quantum x\<close> the exponent of the spacing of the
  doubles around \<open>x\<close>: 52 below the binade, and \<open>- 1074\<close> in the subnormal range.
  \<open>toDouble x\<close> is the double an operation with the exact result \<open>x\<close> returns. Overflow
  to \<^verbatim>\<open>Infinity\<close> is left out: the numbers of the engine are products of a draw below 1
  with a length or a total weight, differences of such a product and weights, scores
  made of a time difference and a few small terms, and one quotient of a length.

  Call counts, lengths and weights are integers. The additions, subtractions and
  doublings of the source on them are exact as long as the values stay below \<open>2 ^ 53\<close>,
  and are written as integer arithmetic. The operations whose exact result need not be
  an integer are rounded: the product of \<^verbatim>\<open>Math.random()\<close> with a length or a total
  weight, the running remainder of \<^verbatim>\<open>selectByWeight\<close>, the score of \<^verbatim>\<open>timeBalanced\<close> and
  the quotient in \<^verbatim>\<open>groupRandom\<close>.
\<close>

definition binade :: "rat \<Rightarrow> int" where
  "binade x = (if 1 \<le> x then bitlen \<lfloor>x\<rfloor> - 1 else - bitlen (\<lceil>1 / x\<rceil> - 1))"

definition quantum :: "rat \<Rightarrow> int" where
  "quantum x = max (binade x - 52) (- 1074)"

definition roundHalfEven :: "rat \<Rightarrow> int" where
  "roundHalfEven z =
     (let f = \<lfloor>z\<rfloor>; d = z - of_int f
      in if d < 1 / 2 then f else if 1 / 2 < d then f + 1 else if even f then f else f + 1)"

definition toDouble :: "rat \<Rightarrow> rat" where
  "toDouble x =
     (if x = 0 then 0
      else (let u = 2 powi quantum \<bar>x\<bar>
            in sgn x * of_int (roundHalfEven (\<bar>x\<bar> / u)) * u))"

definition isDouble :: "rat \<Rightarrow> bool" where
  "isDouble x = (toDouble x = x)"

subsection \<open>JavaScript primitives\<close>

text \<open>\<^verbatim>\<open>xs[i]\<close>: \<^verbatim>\<open>undefined\<close> out of range.\<close>

definition elemAt :: "'a list \<Rightarrow> nat \<Rightarrow> 'a option" where
  "elemAt xs i = (if i < length xs then Some (xs ! i) else None)"

text \<open>
  \<^verbatim>\<open>Math.floor(Math.random() * n)\<close> for the drawn value \<open>r\<close>: the floor of the rounded
  product.
\<close>

definition randomIndex :: "rat \<Rightarrow> nat \<Rightarrow> nat" where
  "randomIndex r n = nat \<lfloor>toDouble (r * of_nat n)\<rfloor>"

text \<open>\<^verbatim>\<open>xs.findIndex(p)\<close>: the first index whose element satisfies \<open>p\<close>, or \<open>-1\<close>.\<close>

fun findIndex :: "('a \<Rightarrow> bool) \<Rightarrow> 'a list \<Rightarrow> int" where
  "findIndex p [] = -1"
| "findIndex p (x # xs) =
     (if p x then 0 else (let i = findIndex p xs in if i = -1 then -1 else i + 1))"

text \<open>\<^verbatim>\<open>xs.slice(start, end)\<close> for non-negative bounds.\<close>

definition slice :: "'a list \<Rightarrow> int \<Rightarrow> int \<Rightarrow> 'a list" where
  "slice xs start stop = drop (nat start) (take (nat stop) xs)"

text \<open>\<^verbatim>\<open>s.callCount || 0\<close>.\<close>

definition callCountOf :: "student \<Rightarrow> int" where
  "callCountOf s = (case callCount s of None \<Rightarrow> 0 | Some c \<Rightarrow> c)"

text \<open>\<^verbatim>\<open>options.avoidImmediateRepeat || false\<close> and \<^verbatim>\<open>options.groupCount || 3\<close>.\<close>

definition avoidOption :: "options \<Rightarrow> bool" where
  "avoidOption opts = (case opt_avoidImmediateRepeat opts of None \<Rightarrow> False | Some b \<Rightarrow> b)"

definition groupCountOption :: "options \<Rightarrow> int" where
  "groupCountOption opts =
     (case opt_groupCount opts of None \<Rightarrow> 3 | Some g \<Rightarrow> if g = 0 then 3 else g)"

subsection \<open>Engine settings\<close>

definition setAvoidImmediateRepeat :: "bool \<Rightarrow> engine \<Rightarrow> engine" where
  "setAvoidImmediateRepeat avoid st =
     (let st1 = st\<lparr>avoidImmediateRepeat := avoid\<rparr>
      in if \<not> avoid then st1\<lparr>selectedStudents := {||}\<rparr> else st1)"

definition reset :: "engine \<Rightarrow> engine" where
  "reset st = st\<lparr>selectedStudents := {||}, lastSelectedStudent := None\<rparr>"

text \<open>The test \<^verbatim>\<open>this.selectedStudents.size < students.length - 1\<close>.\<close>

definition fewerThanAllButOne :: "engine \<Rightarrow> student list \<Rightarrow> bool" where
  "fewerThanAllButOne st students =
     (int (fcard (selectedStudents st)) < int (length students) - 1)"

subsection \<open>The selection algorithms\<close>

definition fairRandom :: "engine \<Rightarrow> student list \<Rightarrow> rat \<Rightarrow> student option" where
  "fairRandom st students r =
     (if students = [] then None
      else if length students = 1 then elemAt students 0
      else if avoidImmediateRepeat st \<and> fewerThanAllButOne st students then
        (let availableStudents =
               filter (\<lambda>s. student_id s |\<notin>| selectedStudents st) students
         in if length availableStudents > 0
            then elemAt availableStudents (randomIndex r (length availableStudents))
            else elemAt students (randomIndex r (length students)))
      else elemAt students (randomIndex r (length students)))"

definition maxCallCount :: "student list \<Rightarrow> int" where
  "maxCallCount students = Max (set (map callCountOf students))"

definition studentsWithWeights :: "engine \<Rightarrow> student list \<Rightarrow> (student \<times> int) list" where
  "studentsWithWeights st students =
     (let weighted = map (\<lambda>s. (s, 1 + (maxCallCount students - callCountOf s))) students
      in if avoidImmediateRepeat st \<and> fewerThanAllButOne st students
         then map (\<lambda>(s, w). if student_id s |\<notin>| selectedStudents st then (s, w * 2) else (s, w))
                weighted
         else weighted)"

text \<open>
  The loop of \<^verbatim>\<open>selectByWeight\<close>, \<^verbatim>\<open>random -= item.weight\<close> being a subtraction of
  doubles; \<open>None\<close> when the loop ends without returning.
\<close>

fun walkWeights :: "(student \<times> int) list \<Rightarrow> rat \<Rightarrow> student option" where
  "walkWeights [] random = None"
| "walkWeights (item # rest) random =
     (let random' = toDouble (random - of_int (snd item))
      in if random' \<le> 0 then Some (fst item) else walkWeights rest random')"

text \<open>
  \<^verbatim>\<open>selectByWeight\<close>: the walk starts from the double \<^verbatim>\<open>Math.random() * totalWeight\<close>.
\<close>

definition selectByWeight :: "(student \<times> int) list \<Rightarrow> rat \<Rightarrow> error + student option" where
  "selectByWeight items r =
     (let totalWeight = sum_list (map snd items)
      in if totalWeight \<le> 0 then
           (case elemAt items (randomIndex r (length items)) of
              None \<Rightarrow> Inl TypeError
            | Some item \<Rightarrow> Inr (Some (fst item)))
         else
           (case walkWeights items (toDouble (r * of_int totalWeight)) of
              Some s \<Rightarrow> Inr (Some s)
            | None \<Rightarrow>
                (if items = [] then Inl TypeError
                 else Inr (Some (fst (last items))))))"

definition weightedRandom :: "engine \<Rightarrow> student list \<Rightarrow> rat \<Rightarrow> error + student option" where
  "weightedRandom st students r =
     (if students = [] then Inr None
      else if length students = 1 then Inr (elemAt students 0)
      else selectByWeight (studentsWithWeights st students) r)"

text \<open>
  The comparator of \<^verbatim>\<open>leastCalledFirst\<close> orders by the pair (already selected, call count)
  when repeat-avoidance is on and by the call count alone otherwise; the sort of the
  source is stable, as \<open>sort_key\<close> is.
\<close>

definition leastCalledKey :: "engine \<Rightarrow> student \<Rightarrow> bool \<times> int" where
  "leastCalledKey st s =
     (avoidImmediateRepeat st \<and> student_id s |\<in>| selectedStudents st, callCountOf s)"

definition leastCalledOf :: "student list \<Rightarrow> rat \<Rightarrow> student option" where
  "leastCalledOf candidates r =
     (let minCallCount = Min (set (map callCountOf candidates));
          leastCalledStudents = filter (\<lambda>s. callCountOf s = minCallCount) candidates
      in elemAt leastCalledStudents (randomIndex r (length leastCalledStudents)))"

definition leastCalledFirst :: "engine \<Rightarrow> student list \<Rightarrow> rat \<Rightarrow> student option" where
  "leastCalledFirst st students r =
     (if students = [] then None
      else if length students = 1 then elemAt students 0
      else
        (let sortedStudents = sort_key (leastCalledKey st) students;
             unselectedStudents =
               filter (\<lambda>s. student_id s |\<notin>| selectedStudents st) sortedStudents
         in if avoidImmediateRepeat st \<and> length unselectedStudents > 0
            then leastCalledOf unselectedStudents r
            else leastCalledOf sortedStudents r))"

definition roundRobin :: "engine \<Rightarrow> student list \<Rightarrow> student option \<times> engine" where
  "roundRobin st students =
     (if students = [] then (None, st)
      else if length students = 1 then (elemAt students 0, st)
      else if fcard (selectedStudents st) = 0 then (elemAt students 0, st)
      else
        (let lastIndex = findIndex (\<lambda>s. Some (student_id s) = lastSelectedStudent st) students;
             nextIndex = nat ((lastIndex + 1) mod int (length students))
         in if avoidImmediateRepeat st \<and> \<not> fewerThanAllButOne st students
            then (elemAt students nextIndex, st\<lparr>selectedStudents := {||}\<rparr>)
            else (elemAt students nextIndex, st)))"

text \<open>
  The score of \<^verbatim>\<open>timeBalanced\<close> for the student at position \<open>i\<close>; \<open>now\<close> is what
  \<^verbatim>\<open>new Date()\<close> reads there, in milliseconds. The quotient and each \<^verbatim>\<open>score += ...\<close>
  is an operation on doubles.
\<close>

definition timeScore :: "engine \<Rightarrow> nat \<Rightarrow> int \<Rightarrow> student \<Rightarrow> rat" where
  "timeScore st n now s =
     (let lastCalledMs = (case lastCalled s of None \<Rightarrow> 0 | Some t \<Rightarrow> t);
          timeDiff = toDouble (of_int (now - lastCalledMs) / (1000 * 60 * 60));
          score1 = (if callCountOf s = 0 then toDouble (timeDiff + 24) else timeDiff);
          score2 = toDouble (score1 + of_int ((int n - callCountOf s) * 2))
      in if avoidImmediateRepeat st \<and> student_id s |\<notin>| selectedStudents st
         then toDouble (score2 + 10) else score2)"

definition timeBalanced ::
  "engine \<Rightarrow> student list \<Rightarrow> (nat \<Rightarrow> int) \<Rightarrow> rat \<Rightarrow> error + student option" where
  "timeBalanced st students now r =
     (if students = [] then Inr None
      else if length students = 1 then Inr (elemAt students 0)
      else
        (let studentsWithScores =
               map (\<lambda>(i, s). (s, timeScore st (length students) (now i) s))
                 (enumerate 0 students);
             sorted = sort_key (\<lambda>item. - snd item) studentsWithScores;
             topCandidates = take (min 3 (length sorted)) sorted
         in case elemAt topCandidates (randomIndex r (length topCandidates)) of
              None \<Rightarrow> Inl TypeError
            | Some item \<Rightarrow> Inr (Some (fst item))))"

text \<open>
  \<^verbatim>\<open>groupRandom\<close>. The loop \<^verbatim>\<open>for (i = 0; i < groupCount; i++)\<close> runs for
  \<open>i = 0, ..., groupCount - 1\<close> and not at all when \<open>groupCount \<le> 0\<close>. The group read at
  the drawn index is \<^verbatim>\<open>undefined\<close> when there is no group, and \<^verbatim>\<open>fairRandom\<close> answers
  \<^verbatim>\<open>null\<close> to it by its first test.
\<close>

definition groupsOf :: "student list \<Rightarrow> nat \<Rightarrow> int \<Rightarrow> student list list" where
  "groupsOf shuffled n groupCount =
     (let groupSize = \<lceil>toDouble (of_nat n / of_int groupCount)\<rceil>
      in map (\<lambda>i. let start = int i * groupSize; stop = min (start + groupSize) (int n)
                  in slice shuffled start stop)
           [0 ..< nat groupCount])"

definition groupRandom :: "engine \<Rightarrow> student list \<Rightarrow> int \<Rightarrow> draws \<Rightarrow> student option" where
  "groupRandom st students groupCount d =
     (if students = [] then None
      else if int (length students) < groupCount then fairRandom st students (rnd1 d)
      else
        (let shuffled = shuffle d students;
             groups = groupsOf shuffled (length students) groupCount;
             randomGroupIndex = randomIndex (rnd1 d) (length groups)
         in case elemAt groups randomGroupIndex of
              None \<Rightarrow> None
            | Some selectedGroup \<Rightarrow> fairRandom st selectedGroup (rnd2 d)))"

subsection \<open>The entry point\<close>

definition filterStudentsBySpecialStatus ::
  "engine \<Rightarrow> student list \<Rightarrow> algorithm \<Rightarrow> student list" where
  "filterStudentsBySpecialStatus st students algorithm =
     (case storageManager st of
        None \<Rightarrow> students
      | Some shouldExcludeStudent \<Rightarrow>
          if algorithm = Fair then students
          else filter (\<lambda>s. \<not> shouldExcludeStudent (student_id s) algorithm) students)"

definition runAlgorithm ::
  "engine \<Rightarrow> student list \<Rightarrow> algorithm \<Rightarrow> options \<Rightarrow> draws
     \<Rightarrow> (error + student option) \<times> engine" where
  "runAlgorithm st availableStudents algorithm opts d =
     (case algorithm of
        Fair \<Rightarrow> (Inr (fairRandom st availableStudents (rnd1 d)), st)
      | Weighted \<Rightarrow> (weightedRandom st availableStudents (rnd1 d), st)
      | LeastCalled \<Rightarrow> (Inr (leastCalledFirst st availableStudents (rnd1 d)), st)
      | RoundRobin \<Rightarrow> (let (s, st') = roundRobin st availableStudents in (Inr s, st'))
      | TimeBalanced \<Rightarrow> (timeBalanced st availableStudents (clock d) (rnd1 d), st)
      | Group \<Rightarrow> (Inr (groupRandom st availableStudents (groupCountOption opts) d), st)
      | Other \<Rightarrow> (Inr (fairRandom st availableStudents (rnd1 d)), st))"

definition updateSelection :: "engine \<Rightarrow> student list \<Rightarrow> student \<Rightarrow> engine" where
  "updateSelection st availableStudents s =
     (let st1 = st\<lparr>lastSelectedStudent := Some (student_id s)\<rparr>
      in if avoidImmediateRepeat st1 then
           (let st2 = st1\<lparr>selectedStudents := finsert (student_id s) (selectedStudents st1)\<rparr>
            in if fcard (selectedStudents st2) \<ge> length availableStudents
               then st2\<lparr>selectedStudents := {||}\<rparr> else st2)
         else st1)"

text \<open>
  The students a policy chooses from: the roster itself under \<^verbatim>\<open>fair\<close> or without a
  storage manager, and what \<^verbatim>\<open>filterStudentsBySpecialStatus\<close> keeps of it otherwise.
\<close>

definition availableStudentsOf :: "engine \<Rightarrow> student list \<Rightarrow> algorithm \<Rightarrow> student list" where
  "availableStudentsOf st students algorithm =
     (if algorithm \<noteq> Fair \<and> storageManager st \<noteq> None
      then filterStudentsBySpecialStatus st students algorithm
      else students)"

definition selectStudent ::
  "engine \<Rightarrow> student list \<Rightarrow> algorithm \<Rightarrow> options \<Rightarrow> draws
     \<Rightarrow> (error + student option) \<times> engine" where
  "selectStudent st students algorithm opts d =
     (if students = [] then (Inr None, st)
      else
        (let st1 = setAvoidImmediateRepeat (avoidOption opts) st;
             availableStudents = availableStudentsOf st1 students algorithm
         in if algorithm \<noteq> Fair \<and> storageManager st1 \<noteq> None \<and> availableStudents = []
            then (Inr None, st1)
            else
              (case runAlgorithm st1 availableStudents algorithm opts d of
                 (Inr (Some s), st2) \<Rightarrow> (Inr (Some s), updateSelection st2 availableStudents s)
               | (res, st2) \<Rightarrow> (res, st2))))"

subsection \<open>Batch selection\<close>

text \<open>
  \<^verbatim>\<open>selectStudent\<close> is declared \<^verbatim>\<open>async\<close> and \<^verbatim>\<open>selectMultipleStudents\<close> calls it
  without \<^verbatim>\<open>await\<close>, so what the caller holds is the promise. The body of an async
  function runs inside the call up to its first \<^verbatim>\<open>await\<close>: under \<^verbatim>\<open>fair\<close> or without
  a storage manager no \<^verbatim>\<open>await\<close> is reached and the promise is settled with the result
  when the call returns; otherwise the call has assigned the repeat-avoidance setting
  and is suspended in \<^verbatim>\<open>filterStudentsBySpecialStatus\<close>, and the rest of its body runs
  after \<^verbatim>\<open>selectMultipleStudents\<close> has returned.
\<close>

definition selectStudentCall ::
  "engine \<Rightarrow> student list \<Rightarrow> algorithm \<Rightarrow> options \<Rightarrow> draws
     \<Rightarrow> (error + student option) promise \<times> engine" where
  "selectStudentCall st students algorithm opts d =
     (if students = [] then (Settled (Inr None), st)
      else if algorithm \<noteq> Fair \<and> storageManager st \<noteq> None
      then (Pending, setAvoidImmediateRepeat (avoidOption opts) st)
      else (case selectStudent st students algorithm opts d of
              (res, st') \<Rightarrow> (Settled res, st')))"

text \<open>A promise object has no property \<^verbatim>\<open>id\<close>: \<^verbatim>\<open>selectedStudent.id\<close> is \<^verbatim>\<open>undefined\<close>.\<close>

definition promiseId :: "'a promise \<Rightarrow> nat option" where
  "promiseId p = None"

text \<open>\<^verbatim>\<open>xs.splice(index, 1)\<close>.\<close>

definition splice1 :: "'a list \<Rightarrow> int \<Rightarrow> 'a list" where
  "splice1 xs index = take (nat index) xs @ drop (nat index + 1) xs"

text \<open>
  The loop of \<^verbatim>\<open>selectMultipleStudents\<close>, with the number of iterations left and the
  loop counter \<open>i\<close>; the \<open>i\<close>-th call draws \<open>ds i\<close>. A promise is an object, so the test
  \<^verbatim>\<open>if (selectedStudent)\<close> always succeeds.
\<close>

fun selectLoop ::
  "nat \<Rightarrow> nat \<Rightarrow> engine \<Rightarrow> student list \<Rightarrow> algorithm \<Rightarrow> options \<Rightarrow> (nat \<Rightarrow> draws)
     \<Rightarrow> (error + student option) promise list
     \<Rightarrow> (error + student option) promise list \<times> student list \<times> engine" where
  "selectLoop 0 i st availableStudents algorithm opts ds selected =
     (selected, availableStudents, st)"
| "selectLoop (Suc k) i st availableStudents algorithm opts ds selected =
     (case selectStudentCall st availableStudents algorithm opts (ds i) of
        (selectedStudent, st') \<Rightarrow>
          (let index = findIndex (\<lambda>s. Some (student_id s) = promiseId selectedStudent)
                         availableStudents;
               availableStudents' =
                 (if index \<noteq> -1 then splice1 availableStudents index else availableStudents)
           in selectLoop k (Suc i) st' availableStudents' algorithm opts ds
                (selected @ [selectedStudent])))"

definition selectMultipleStudents ::
  "engine \<Rightarrow> student list \<Rightarrow> int \<Rightarrow> algorithm \<Rightarrow> options \<Rightarrow> (nat \<Rightarrow> draws)
     \<Rightarrow> (error + student option) promise list \<times> engine" where
  "selectMultipleStudents st students count algorithm opts ds =
     (if students = [] \<or> count \<le> 0 then ([], st)
      else
        (let originalAvoidRepeat = avoidImmediateRepeat st;
             st1 = setAvoidImmediateRepeat True st
         in case selectLoop (nat (min count (int (length students)))) 0 st1 students
                   algorithm opts ds [] of
              (selected, pool, st2) \<Rightarrow>
                (selected, setAvoidImmediateRepeat originalAvoidRepeat st2)))"

subsection \<open>Repeated calls\<close>

text \<open>
  A caller that makes \<open>k\<close> calls of \<^verbatim>\<open>selectStudent\<close> on the same roster, with the same
  policy and options, awaiting each; the \<open>i\<close>-th call draws \<open>ds i\<close>.
\<close>

fun selectRepeatedly ::
  "nat \<Rightarrow> engine \<Rightarrow> student list \<Rightarrow> algorithm \<Rightarrow> options \<Rightarrow> (nat \<Rightarrow> draws)
     \<Rightarrow> (error + student option) list \<times> engine" where
  "selectRepeatedly 0 st students algorithm opts ds = ([], st)"
| "selectRepeatedly (Suc k) st students algorithm opts ds =
     (case selectRepeatedly k st students algorithm opts ds of
        (results, st') \<Rightarrow>
          (case selectStudent st' students algorithm opts (ds k) of
             (r, st'') \<Rightarrow> (results @ [r], st'')))"

subsection \<open>Concrete rosters, options and draws\<close>

definition studentA :: student where
  "studentA = \<lparr>student_id = 1, name = ''A'', callCount = Some 0, lastCalled = None\<rparr>"

definition studentB :: student where
  "studentB = \<lparr>student_id = 2, name = ''B'', callCount = Some 0, lastCalled = None\<rparr>"

definition studentC :: student where
  "studentC = \<lparr>student_id = 3, name = ''C'', callCount = Some 0, lastCalled = None\<rparr>"

definition studentD :: student where
  "studentD = \<lparr>student_id = 4, name = ''D'', callCount = Some 0, lastCalled = None\<rparr>"

definition rosterAB :: "student list" where
  "rosterAB = [studentA, studentB]"

definition rosterABC :: "student list" where
  "rosterABC = [studentA, studentB, studentC]"

definition rosterABCD :: "student list" where
  "rosterABCD = [studentA, studentB, studentC, studentD]"

text \<open>The roster of the scenario of the specification: call counts 5, 0 and 2.\<close>

definition scenarioA :: student where
  "scenarioA = \<lparr>student_id = 1, name = ''A'', callCount = Some 5, lastCalled = None\<rparr>"

definition scenarioB :: student where
  "scenarioB = \<lparr>student_id = 2, name = ''B'', callCount = Some 0, lastCalled = None\<rparr>"

definition scenarioC :: student where
  "scenarioC = \<lparr>student_id = 3, name = ''C'', callCount = Some 2, lastCalled = None\<rparr>"

definition scenarioRoster :: "student list" where
  "scenarioRoster = [scenarioA, scenarioB, scenarioC]"

text \<open>\<^verbatim>\<open>{}\<close>, \<^verbatim>\<open>{avoidImmediateRepeat: true}\<close> and \<^verbatim>\<open>{groupCount: -1}\<close>.\<close>

definition noOptions :: options where
  "noOptions = \<lparr>opt_avoidImmediateRepeat = None, opt_groupCount = None\<rparr>"

definition avoidRepeat :: options where
  "avoidRepeat = \<lparr>opt_avoidImmediateRepeat = Some True, opt_groupCount = None\<rparr>"

definition negativeGroupCount :: options where
  "negativeGroupCount = \<lparr>opt_avoidImmediateRepeat = None, opt_groupCount = Some (- 1)\<rparr>"

text \<open>
  Draws: every \<^verbatim>\<open>Math.random()\<close> reads 0, or the first index draw reads 0.875; the
  shuffle leaves the order as it is and the clock reads 0.
\<close>

definition drawZero :: draws where
  "drawZero = \<lparr>rnd1 = 0, rnd2 = 0, shuffle = (\<lambda>xs. xs), clock = (\<lambda>i. 0)\<rparr>"

definition drawHigh :: draws where
  "drawHigh = \<lparr>rnd1 = 7 / 8, rnd2 = 0, shuffle = (\<lambda>xs. xs), clock = (\<lambda>i. 0)\<rparr>"

text \<open>A storage manager that excludes every student, and an engine built on it.\<close>

definition excludeAll :: "nat \<Rightarrow> algorithm \<Rightarrow> bool" where
  "excludeAll i a = True"

definition drawZeroEachCall :: "nat \<Rightarrow> draws" where
  "drawZeroEachCall i = drawZero"

definition drawHighEachCall :: "nat \<Rightarrow> draws" where
  "drawHighEachCall i = drawHigh"

text \<open>
  The engine after one call under \<^verbatim>\<open>fair\<close> with repeat-avoidance on, which selects A
  from [A, B, C]: repeat-avoidance is on and the set of selected ids is \<open>{1}\<close>.
\<close>

definition engineAfterA :: engine where
  "engineAfterA = snd (selectStudent (constructor None) rosterABC Fair avoidRepeat drawZero)"

text \<open>
  The engine after one call under \<^verbatim>\<open>leastCalled\<close> with repeat-avoidance on, on the roster
  of the scenario: the call selects B.
\<close>

definition engineAfterScenarioB :: engine where
  "engineAfterScenarioB =
     snd (selectStudent (constructor None) scenarioRoster LeastCalled avoidRepeat drawZero)"

text \<open>
  What \<^verbatim>\<open>leastCalledFirst\<close> takes the minimum over (lines 136 to 157), for the setting
  \<open>avoid\<close> and the set \<open>chosen\<close> of selected ids: the students not yet selected when
  repeat-avoidance is on and there is one, and all students it is given otherwise.
\<close>

definition leastCalledCandidates :: "bool \<Rightarrow> nat fset \<Rightarrow> student list \<Rightarrow> student list" where
  "leastCalledCandidates avoid chosen eligible =
     (if avoid \<and> filter (\<lambda>s. student_id s |\<notin>| chosen) eligible \<noteq> []
      then filter (\<lambda>s. student_id s |\<notin>| chosen) eligible
      else eligible)"

text \<open>
  Draws whose first \<^verbatim>\<open>Math.random()\<close> reads 0.5 and 0.625, and the engines after one and
  two calls under \<^verbatim>\<open>weighted\<close> with repeat-avoidance on, which select A and then B from
  [A, B, C].
\<close>

definition drawHalf :: draws where
  "drawHalf = \<lparr>rnd1 = 1 / 2, rnd2 = 0, shuffle = (\<lambda>xs. xs), clock = (\<lambda>i. 0)\<rparr>"

definition drawFiveEighths :: draws where
  "drawFiveEighths = \<lparr>rnd1 = 5 / 8, rnd2 = 0, shuffle = (\<lambda>xs. xs), clock = (\<lambda>i. 0)\<rparr>"

definition engineAfterAB :: engine where
  "engineAfterAB =
     snd (selectStudent
            (snd (selectStudent (constructor None) rosterABC Weighted avoidRepeat drawZero))
            rosterABC Weighted avoidRepeat drawHalf)"

definition engineAfterWeightedA :: engine where
  "engineAfterWeightedA =
     snd (selectStudent (constructor None) rosterABC Weighted avoidRepeat drawZero)"

text \<open>
  The weight \<^verbatim>\<open>weightedRandom\<close> gives a student (lines 81 to 97), in one formula, for the
  setting \<open>avoid\<close> and the set \<open>chosen\<close> of selected ids.
\<close>

definition policyWeight :: "bool \<Rightarrow> nat fset \<Rightarrow> student list \<Rightarrow> student \<Rightarrow> int" where
  "policyWeight avoid chosen students s =
     (1 + (maxCallCount students - callCountOf s))
     * (if avoid \<and> int (fcard chosen) < int (length students) - 1 \<and> student_id s |\<notin>| chosen
        then 2 else 1)"

text \<open>
  What \<^verbatim>\<open>roundRobin\<close> relies on before the call number \<open>k\<close> (counted from 0) of a
  sequence on the students \<open>available\<close>: no id selected before the first call, and
  afterwards a non-empty set of selected ids and the id of the student returned last.
\<close>

definition roundRobinReady :: "student list \<Rightarrow> nat \<Rightarrow> engine \<Rightarrow> bool" where
  "roundRobinReady available k st =
     (if k = 0 then selectedStudents st = {||}
      else selectedStudents st \<noteq> {||}
           \<and> lastSelectedStudent st
               = Some (student_id (available ! ((k - 1) mod length available))))"

text \<open>The draws a call can make: every \<^verbatim>\<open>Math.random()\<close> is a double in \<open>[0, 1)\<close>.\<close>

definition unitInterval :: "rat \<Rightarrow> bool" where
  "unitInterval r = (isDouble r \<and> 0 \<le> r \<and> r < 1)"

text \<open>
  The students \<^verbatim>\<open>fairRandom\<close> draws from (lines 48 to 62), for the setting \<open>avoid\<close> and
  the set \<open>chosen\<close> of selected ids: the students not yet selected when repeat-avoidance
  is on, fewer than all but one have been selected and one is left, and all students it
  is given otherwise.
\<close>

definition fairPool :: "bool \<Rightarrow> nat fset \<Rightarrow> student list \<Rightarrow> student list" where
  "fairPool avoid chosen students =
     (if avoid \<and> int (fcard chosen) < int (length students) - 1
         \<and> filter (\<lambda>s. student_id s |\<notin>| chosen) students \<noteq> []
      then filter (\<lambda>s. student_id s |\<notin>| chosen) students
      else students)"

section \<open>Properties\<close>

subsection \<open>Doubles\<close>

lemma powi_neg_nat: "0 \<le> b \<Longrightarrow> (2::rat) powi (- b) = 1 / 2 ^ nat b"
  by (simp add: power_int_minus_divide power_int_nonneg_exp)

lemma binade_ge_one:
  assumes "1 \<le> x"
  shows "2 powi binade x \<le> x" and "x < 2 powi (binade x + 1)"
proof -
  have pos: "0 < \<lfloor>x\<rfloor>" using assms by simp
  have b: "1 \<le> bitlen \<lfloor>x\<rfloor>" using pos by (simp add: bitlen_alt_def)
  have bin: "binade x = bitlen \<lfloor>x\<rfloor> - 1" using assms by (simp add: binade_def)
  have "(2::rat) powi (bitlen \<lfloor>x\<rfloor> - 1) = of_int (2 ^ nat (bitlen \<lfloor>x\<rfloor> - 1))"
    using b by (simp add: power_int_nonneg_exp)
  also have "\<dots> \<le> of_int \<lfloor>x\<rfloor>"
    using bitlen_bounds [OF pos] by (simp only: of_int_le_iff)
  also have "\<dots> \<le> x" by simp
  finally show "2 powi binade x \<le> x" by (simp add: bin)
  have "\<lfloor>x\<rfloor> + 1 \<le> 2 ^ nat (bitlen \<lfloor>x\<rfloor>)"
    using bitlen_bounds [OF pos] by simp
  then have "(of_int (\<lfloor>x\<rfloor> + 1) :: rat) \<le> of_int (2 ^ nat (bitlen \<lfloor>x\<rfloor>))"
    by (simp only: of_int_le_iff)
  moreover have "x < of_int (\<lfloor>x\<rfloor> + 1)" by linarith
  ultimately have "x < of_int (2 ^ nat (bitlen \<lfloor>x\<rfloor>))" by (rule less_le_trans [rotated])
  also have "\<dots> = 2 powi (binade x + 1)"
    using b by (simp add: bin power_int_nonneg_exp)
  finally show "x < 2 powi (binade x + 1)" .
qed

lemma binade_below_one:
  assumes "0 < x" and "x < 1"
  shows "2 powi binade x \<le> x" and "x < 2 powi (binade x + 1)"
proof -
  let ?c = "\<lceil>1 / x\<rceil>"
  let ?b = "bitlen (?c - 1)"
  have inv: "1 < 1 / x" using assms by simp
  then have c: "2 \<le> ?c" by linarith
  then have pos: "0 < ?c - 1" by simp
  have b: "1 \<le> ?b" using pos by (simp add: bitlen_alt_def)
  have bin: "binade x = - ?b" using assms by (simp add: binade_def)
  have "?c \<le> 2 ^ nat ?b" using bitlen_bounds [OF pos] by simp
  then have "(of_int ?c :: rat) \<le> of_int (2 ^ nat ?b)" by (simp only: of_int_le_iff)
  then have B: "(of_int ?c :: rat) \<le> 2 ^ nat ?b" by simp
  have A: "1 / x \<le> of_int ?c" by (rule le_of_int_ceiling)
  from A B have "1 / x \<le> 2 ^ nat ?b" by (rule order_trans)
  then have "1 / 2 ^ nat ?b \<le> x"
    using assms(1) by (simp add: field_simps)
  then show "2 powi binade x \<le> x"
    using b by (simp add: bin powi_neg_nat)
  have "2 ^ nat (?b - 1) \<le> ?c - 1" using bitlen_bounds [OF pos] by simp
  then have "(of_int (2 ^ nat (?b - 1)) :: rat) \<le> of_int (?c - 1)" by (simp only: of_int_le_iff)
  then have D: "(2::rat) ^ nat (?b - 1) \<le> of_int (?c - 1)" by simp
  have E: "of_int (?c - 1) < 1 / x"
    using ceiling_correct [of "1 / x"] by simp
  from D E have "2 ^ nat (?b - 1) < 1 / x" by (rule le_less_trans)
  then have "x < 1 / 2 ^ nat (?b - 1)"
    using assms(1) by (simp add: field_simps)
  also have "\<dots> = 2 powi (- (?b - 1))"
    using b powi_neg_nat [of "?b - 1"] by simp
  finally show "x < 2 powi (binade x + 1)"
    by (simp add: bin)
qed

lemma binade_bounds:
  assumes "0 < x"
  shows "2 powi binade x \<le> x" and "x < 2 powi (binade x + 1)"
  using binade_ge_one [of x] binade_below_one [OF assms] by (cases "1 \<le> x"; simp)+

lemma powi_less_exp:
  assumes "(2::rat) powi m < 2 powi n"
  shows "m < n"
proof (rule ccontr)
  assume "\<not> m < n"
  then have "n \<le> m" by simp
  then have "(2::rat) powi n \<le> 2 powi m"
    by (rule power_int_increasing) simp
  then show False using assms by simp
qed

lemma binade_unique:
  assumes "2 powi e \<le> x" and "x < 2 powi (e + 1)"
  shows "binade x = e"
proof -
  have pos: "0 < x"
    using assms(1) zero_less_power_int [of "2::rat" e] by linarith
  have "(2::rat) powi e < 2 powi (binade x + 1)"
    using assms(1) binade_bounds(2) [OF pos] by linarith
  then have "e < binade x + 1"
    by (rule powi_less_exp)
  moreover have "(2::rat) powi binade x < 2 powi (e + 1)"
    using assms(2) binade_bounds(1) [OF pos] by linarith
  then have "binade x < e + 1"
    by (rule powi_less_exp)
  ultimately show ?thesis by simp
qed

lemma powi_shift: "(2::rat) ^ n * 2 powi q = 2 powi (q + int n)"
proof -
  have "(2::rat) powi (q + int n) = 2 powi q * 2 powi (int n)"
    by (rule power_int_add) simp
  then show ?thesis
    by (simp only: power_int_of_nat mult.commute)
qed

lemma powi_53: "(2::rat) ^ 53 * 2 powi (e - 52) = 2 powi (e + 1)"
  using powi_shift [of 53 "e - 52"] by (simp add: algebra_simps)

lemma powi_52: "(2::rat) ^ 52 * 2 powi (e - 52) = 2 powi e"
  using powi_shift [of 52 "e - 52"] by (simp add: algebra_simps)

lemma powi_53_up: "(2::rat) ^ 53 * 2 powi q = 2 powi (q + 53)"
  using powi_shift [of 53 q] by (simp add: algebra_simps)

lemma powi_52_up: "(2::rat) powi (q + 53) / 2 powi (q + 1) = 2 ^ 52"
  using powi_shift [of 52 "q + 1"] by (simp add: algebra_simps field_simps)

lemma quantum_ge: "- 1074 \<le> quantum x"
  by (simp add: quantum_def)

lemma quantum_upper:
  assumes "0 < x"
  shows "x < 2 ^ 53 * 2 powi quantum x"
proof -
  have "x < 2 powi (binade x + 1)"
    using binade_bounds(2) [OF assms] .
  also have "\<dots> = 2 ^ 53 * 2 powi (binade x - 52)"
    by (rule powi_53 [symmetric])
  also have "\<dots> \<le> 2 ^ 53 * 2 powi quantum x"
    by (intro mult_left_mono power_int_increasing) (simp_all add: quantum_def)
  finally show ?thesis .
qed

lemma quantum_lower:
  assumes "0 < x"
  shows "2 ^ 52 * 2 powi quantum x \<le> x \<or> quantum x = - 1074"
proof (cases "quantum x = - 1074")
  case True
  then show ?thesis by simp
next
  case False
  then have q: "quantum x = binade x - 52"
    by (simp add: quantum_def max_def split: if_splits)
  have "(2::rat) ^ 52 * 2 powi quantum x = 2 powi binade x"
    unfolding q by (rule powi_52)
  also have "\<dots> \<le> x"
    using binade_bounds(1) [OF assms] .
  finally show ?thesis by simp
qed

lemma roundHalfEven_error: "\<bar>of_int (roundHalfEven z) - z\<bar> \<le> 1 / 2"
proof -
  have "of_int \<lfloor>z\<rfloor> \<le> z" "z < of_int \<lfloor>z\<rfloor> + 1"
    by linarith+
  then show ?thesis
    by (auto simp add: roundHalfEven_def Let_def)
qed

lemma roundHalfEven_of_int [simp]: "roundHalfEven (of_int k) = k"
  by (simp add: roundHalfEven_def)

lemma roundHalfEven_nonneg: "0 \<le> z \<Longrightarrow> 0 \<le> roundHalfEven z"
  by (auto simp add: roundHalfEven_def Let_def)

lemma roundHalfEven_le:
  assumes "z \<le> of_int k"
  shows "roundHalfEven z \<le> k"
proof -
  have "of_int (roundHalfEven z) \<le> z + 1 / 2"
    using roundHalfEven_error [of z] by linarith
  then have "(of_int (roundHalfEven z) :: rat) < of_int (k + 1)"
    using assms by simp
  then have "roundHalfEven z < k + 1"
    by (simp only: of_int_less_iff)
  then show ?thesis by simp
qed

lemma toDouble_pos_eq:
  assumes "0 < x"
  shows "toDouble x = of_int (roundHalfEven (x / 2 powi quantum x)) * 2 powi quantum x"
  using assms by (simp add: toDouble_def Let_def)

lemma toDouble_zero [simp]: "toDouble 0 = 0"
  by (simp add: toDouble_def)

lemma toDouble_minus: "toDouble (- x) = - toDouble x"
  by (simp add: toDouble_def Let_def)

lemma toDouble_nonneg:
  assumes "0 \<le> x"
  shows "0 \<le> toDouble x"
proof (cases "x = 0")
  case True
  then show ?thesis by simp
next
  case False
  then have pos: "0 < x" using assms by simp
  have "0 \<le> x / 2 powi quantum x" using pos by simp
  then have "0 \<le> roundHalfEven (x / 2 powi quantum x)"
    by (rule roundHalfEven_nonneg)
  then show ?thesis
    by (simp add: toDouble_pos_eq [OF pos])
qed

lemma toDouble_nonpos:
  assumes "x \<le> 0"
  shows "toDouble x \<le> 0"
  using toDouble_nonneg [of "- x"] assms by (simp add: toDouble_minus)

lemma toDouble_error:
  assumes "0 < x"
  shows "\<bar>toDouble x - x\<bar> \<le> 2 powi quantum x / 2"
proof -
  let ?u = "(2::rat) powi quantum x"
  have "\<bar>of_int (roundHalfEven (x / ?u)) - x / ?u\<bar> * ?u \<le> 1 / 2 * ?u"
    by (intro mult_right_mono roundHalfEven_error) simp
  moreover have "\<bar>of_int (roundHalfEven (x / ?u)) - x / ?u\<bar> * ?u
      = \<bar>of_int (roundHalfEven (x / ?u)) * ?u - x\<bar>"
  proof -
    have "\<bar>of_int (roundHalfEven (x / ?u)) - x / ?u\<bar> * ?u
            = \<bar>(of_int (roundHalfEven (x / ?u)) - x / ?u) * ?u\<bar>"
      by (simp add: abs_mult)
    also have "(of_int (roundHalfEven (x / ?u)) - x / ?u) * ?u
            = of_int (roundHalfEven (x / ?u)) * ?u - x"
      by (simp add: left_diff_distrib)
    finally show ?thesis .
  qed
  ultimately show ?thesis
    by (simp add: toDouble_pos_eq [OF assms])
qed

lemma toDouble_fixes:
  assumes m: "0 \<le> m" "m \<le> 2 ^ 53" and q: "- 1074 \<le> q"
  shows "toDouble (of_int m * 2 powi q) = of_int m * 2 powi q"
proof (cases "m = 0")
  case True
  then show ?thesis by simp
next
  case False
  let ?y = "of_int m * (2::rat) powi q"
  have mpos: "0 < m" using False m(1) by simp
  then have pos: "0 < ?y" by simp
  have le: "?y \<le> 2 powi (q + 53)"
  proof -
    have "(of_int m :: rat) \<le> of_int (2 ^ 53)"
      using m(2) by (simp only: of_int_le_iff)
    then have "?y \<le> of_int (2 ^ 53) * 2 powi q"
      by (intro mult_right_mono) simp_all
    also have "\<dots> = 2 ^ 53 * 2 powi q" by simp
    also have "\<dots> = 2 powi (q + 53)"
      by (rule powi_53_up)
    finally show ?thesis .
  qed
  have "\<exists>k. ?y / 2 powi quantum ?y = of_int k"
  proof (cases "?y = 2 powi (q + 53)")
    case True
    have "binade ?y = q + 53"
      unfolding True by (rule binade_unique) (simp_all add: power_int_strict_increasing)
    then have "quantum ?y = q + 1"
      using q by (simp add: quantum_def)
    then have "?y / 2 powi quantum ?y = 2 powi (q + 53) / 2 powi (q + 1)"
      using True by simp
    also have "\<dots> = 2 ^ 52"
      by (rule powi_52_up)
    also have "\<dots> = of_int (2 ^ 52)" by simp
    finally show ?thesis by blast
  next
    case False
    then have "?y < 2 powi (q + 53)" using le by simp
    then have "(2::rat) powi binade ?y < 2 powi (q + 53)"
      using binade_bounds(1) [OF pos] by linarith
    then have "binade ?y < q + 53" by (rule powi_less_exp)
    then have qy: "quantum ?y \<le> q"
      using q by (simp add: quantum_def)
    have "?y / 2 powi quantum ?y = of_int m * 2 powi (q - quantum ?y)"
      by (simp add: power_int_diff)
    also have "\<dots> = of_int m * 2 ^ nat (q - quantum ?y)"
      using qy by (simp add: power_int_nonneg_exp)
    also have "\<dots> = of_int (m * 2 ^ nat (q - quantum ?y))" by simp
    finally show ?thesis by blast
  qed
  then obtain k where k: "?y / 2 powi quantum ?y = of_int k" by blast
  then have "?y = of_int k * 2 powi quantum ?y"
    by (simp add: field_simps)
  then show ?thesis
    using k by (simp add: toDouble_pos_eq [OF pos])
qed

lemma toDouble_repr:
  assumes "0 < x"
  shows "\<exists>m. toDouble x = of_int m * 2 powi quantum x \<and> 0 \<le> m \<and> m \<le> 2 ^ 53"
proof -
  let ?u = "(2::rat) powi quantum x"
  let ?m = "roundHalfEven (x / ?u)"
  have "x / ?u \<le> of_int (2 ^ 53)"
    using quantum_upper [OF assms] by (simp add: field_simps)
  then have "?m \<le> 2 ^ 53" by (rule roundHalfEven_le)
  moreover have "0 \<le> ?m"
    using assms by (intro roundHalfEven_nonneg) simp
  ultimately show ?thesis
    using toDouble_pos_eq [OF assms] by blast
qed

lemma isDouble_toDouble:
  assumes "0 \<le> x"
  shows "isDouble (toDouble x)"
proof (cases "x = 0")
  case True
  then show ?thesis by (simp add: isDouble_def)
next
  case False
  then have "0 < x" using assms by simp
  from toDouble_repr [OF this] obtain m where
    m: "toDouble x = of_int m * 2 powi quantum x" "0 \<le> m" "m \<le> 2 ^ 53" by blast
  show ?thesis
    unfolding isDouble_def m(1) using m(2,3) quantum_ge by (rule toDouble_fixes)
qed

lemma isDouble_repr:
  assumes "isDouble x" and "0 < x"
  shows "\<exists>m. x = of_int m * 2 powi quantum x \<and> 0 \<le> m \<and> m \<le> 2 ^ 53"
  using toDouble_repr [OF assms(2)] assms(1) by (simp add: isDouble_def)

lemma double_below_one:
  assumes "isDouble r" and "0 < r" and "r < 1"
  shows "r \<le> 1 - 1 / 2 ^ 53"
proof -
  let ?u = "(2::rat) powi quantum r"
  obtain m where m: "r = of_int m * ?u" "0 \<le> m" "m \<le> 2 ^ 53"
    using isDouble_repr [OF assms(1,2)] by blast
  have "of_int m * ?u < 2 ^ 53 * ?u"
    using quantum_upper [OF assms(2)] m(1) by simp
  then have "(of_int m :: rat) < of_int (2 ^ 53)"
    by simp
  then have "m < 2 ^ 53"
    by (simp only: of_int_less_iff)
  then have "m \<le> 2 ^ 53 - 1" by simp
  then have m_le: "(of_int m :: rat) \<le> of_int (2 ^ 53 - 1)"
    by (simp only: of_int_le_iff)
  have "quantum r \<le> - 53"
  proof (cases "quantum r = - 1074")
    case True
    then show ?thesis by simp
  next
    case False
    then have "2 ^ 52 * ?u \<le> r" using quantum_lower [OF assms(2)] by simp
    then have "2 ^ 52 * ?u < 1" using assms(3) by simp
    then have "2 ^ 52 * ?u < 2 ^ 52 * 2 powi (- 52)" by simp
    then have "?u < 2 powi (- 52)" by simp
    then have "quantum r < - 52" by (rule powi_less_exp)
    then show ?thesis by simp
  qed
  then have "?u \<le> 2 powi (- 53)"
    by (intro power_int_increasing) simp_all
  then have u_le: "?u \<le> 1 / 2 ^ 53"
    by simp
  have "r \<le> of_int (2 ^ 53 - 1) * (1 / 2 ^ 53)"
    unfolding m(1) [symmetric] using m_le u_le m(2)
    by (subst m(1)) (intro mult_mono, simp_all)
  then show ?thesis by simp
qed

lemma product_below:
  assumes "isDouble r" and "0 \<le> r" and "r < 1" and "1 \<le> n"
  shows "toDouble (r * n) < n"
proof (cases "r = 0")
  case True
  then show ?thesis using assms(4) by simp
next
  case False
  then have rpos: "0 < r" using assms(2) by simp
  let ?x = "r * n"
  let ?u = "(2::rat) powi quantum ?x"
  have npos: "0 < n" using assms(4) by simp
  have pos: "0 < ?x" using rpos npos by simp
  have below: "?x < n" using assms(3) npos by simp
  have "r * n \<le> (1 - 1 / 2 ^ 53) * n"
    using double_below_one [OF assms(1) rpos assms(3)] npos by (intro mult_right_mono) simp_all
  then have x_le: "?x \<le> n - n / 2 ^ 53"
    by (simp add: algebra_simps)
  have "2 ^ 52 * ?u < n"
  proof (cases "quantum ?x = - 1074")
    case True
    have "(2::rat) ^ 52 * 2 powi (- 1074) = 2 powi (- 1022)"
      using powi_shift [of 52 "- 1074"] by simp
    also have "\<dots> \<le> 2 powi 0"
      by (intro power_int_increasing) simp_all
    finally show ?thesis using assms(4) True by simp
  next
    case False
    then have "2 ^ 52 * ?u \<le> ?x" using quantum_lower [OF pos] by simp
    then show ?thesis using below by simp
  qed
  then have "?u / 2 < n / 2 ^ 53"
    by simp
  moreover have "toDouble ?x \<le> ?x + ?u / 2"
    using toDouble_error [OF pos] by linarith
  ultimately show ?thesis
    using x_le by linarith
qed

lemma exact_difference:
  assumes a: "isDouble a" "a < 2 ^ 53" and k: "0 \<le> k" and pos: "0 < a - of_int k"
  shows "isDouble (a - of_int k)"
proof -
  have apos: "0 < a" using pos k by (simp add: less_le_trans [of 0 "of_int k"] )
  let ?qa = "quantum a"
  obtain m where m: "a = of_int m * 2 powi ?qa" "0 \<le> m" "m \<le> 2 ^ 53"
    using isDouble_repr [OF a(1) apos] by blast
  define q where "q = min ?qa 0"
  define m' where "m' = m * 2 ^ nat (?qa - q) - k * 2 ^ nat (- q)"
  have q_le: "q \<le> ?qa" "q \<le> 0" and q_ge: "- 1074 \<le> q"
    using quantum_ge [of a] by (simp_all add: q_def)
  have s1: "(2::rat) ^ nat (?qa - q) * 2 powi q = 2 powi ?qa"
    using powi_shift [of "nat (?qa - q)" q] q_le by simp
  have s2: "(2::rat) ^ nat (- q) * 2 powi q = 1"
    using powi_shift [of "nat (- q)" q] q_le by simp
  have "of_int m' * (2::rat) powi q
          = of_int m * (2 ^ nat (?qa - q) * 2 powi q) - of_int k * (2 ^ nat (- q) * 2 powi q)"
    by (simp add: m'_def algebra_simps)
  also have "\<dots> = a - of_int k"
    unfolding s1 s2 using m(1) by simp
  finally have repr: "a - of_int k = of_int m' * 2 powi q" by simp
  have "0 < of_int m' * (2::rat) powi q"
    using pos repr by simp
  moreover have "0 < (2::rat) powi q" by simp
  ultimately have "0 < (of_int m' :: rat)"
    by (simp only: zero_less_mult_pos2)
  then have m'_pos: "0 \<le> m'" by simp
  have "(of_int m' :: rat) \<le> 2 ^ 53"
  proof (cases "q = 0")
    case True
    then have "of_int m' = a - of_int k" using repr by simp
    then show ?thesis using a(2) k by simp
  next
    case False
    then have qa: "q = ?qa" by (simp add: q_def min_def split: if_splits)
    have "of_int m' * (2::rat) powi q \<le> of_int m * 2 powi q"
      using repr m(1) k unfolding qa by simp
    then have "(of_int m' :: rat) \<le> of_int m" by simp
    moreover have "(of_int m :: rat) \<le> of_int (2 ^ 53)"
      using m(3) by (simp only: of_int_le_iff)
    ultimately show ?thesis by simp
  qed
  then have "(of_int m' :: rat) \<le> of_int (2 ^ 53)" by simp
  then have m'_le: "m' \<le> 2 ^ 53" by (simp only: of_int_le_iff)
  show ?thesis
    unfolding isDouble_def repr using m'_pos m'_le q_ge by (rule toDouble_fixes)
qed

lemma index_reachable:
  assumes "i < n" and "n \<le> 2 ^ 51"
  shows "\<exists>r. isDouble r \<and> 0 \<le> r \<and> r < 1 \<and> \<lfloor>toDouble (r * of_nat n)\<rfloor> = int i"
proof -
  define N :: rat where "N = of_nat n"
  define I :: rat where "I = of_nat i"
  define c :: int where "c = \<lceil>(I + 1 / 2) * 2 ^ 53 / N\<rceil>"
  define r :: rat where "r = of_int c * 2 powi (- 53)"
  have Npos: "0 < N" and Ipos: "0 \<le> I" and IN: "I + 1 \<le> N"
    using assms(1) unfolding N_def I_def
    by (simp_all add: of_nat_less_iff of_nat_Suc [symmetric] del: of_nat_Suc)
  have "N \<le> of_nat (2 ^ 51)"
    unfolding N_def using assms(2) by (simp only: of_nat_le_iff)
  then have Nle: "N \<le> 2 ^ 51" by simp
  have r_eq: "r = of_int c / 2 ^ 53"
    unfolding r_def using powi_neg_nat [of 53] by simp
  have c_ge: "(I + 1 / 2) * 2 ^ 53 / N \<le> of_int c"
    unfolding c_def by (rule le_of_int_ceiling)
  have c_lt: "of_int c < (I + 1 / 2) * 2 ^ 53 / N + 1"
    unfolding c_def using ceiling_correct [of "(I + 1 / 2) * 2 ^ 53 / N"] by linarith
  have "(I + 1 / 2) * 2 ^ 53 \<le> of_int c * N"
    using c_ge Npos by (simp add: pos_divide_le_eq)
  then have x_ge: "I + 1 / 2 \<le> r * N"
    unfolding r_eq by simp
  have "of_int c * N < ((I + 1 / 2) * 2 ^ 53 / N + 1) * N"
    using c_lt Npos by (simp only: mult_less_cancel_right_pos)
  also have "\<dots> = (I + 1 / 2) * 2 ^ 53 + N"
    using Npos by (simp add: distrib_right add_divide_distrib)
  finally have "of_int c * N < (I + 1 / 2) * 2 ^ 53 + N" .
  then have "r * N < I + 1 / 2 + N / 2 ^ 53"
    unfolding r_eq by simp
  moreover have "N / 2 ^ 53 \<le> 1 / 4"
    using Nle by simp
  ultimately have x_lt: "r * N < I + 3 / 4"
    by linarith
  have xpos: "0 < r * N" using x_ge Ipos by linarith
  then have rpos: "0 < r" using Npos by (simp add: zero_less_mult_iff)
  have "r * N < 1 * N" using x_lt IN by linarith
  then have r1: "r < 1" using Npos by (simp only: mult_less_cancel_right_pos)
  have cpos: "0 \<le> c" using rpos unfolding r_eq by (simp add: zero_less_divide_iff)
  have "(of_int c :: rat) < of_int (2 ^ 53)" using r1 unfolding r_eq by simp
  then have "c < 2 ^ 53" by (simp only: of_int_less_iff)
  then have cle: "c \<le> 2 ^ 53" by simp
  have dbl: "isDouble r"
    unfolding isDouble_def r_def using cpos cle by (rule toDouble_fixes) simp
  let ?u = "(2::rat) powi quantum (r * N)"
  have "?u \<le> 1 / 2"
  proof (cases "quantum (r * N) = - 1074")
    case True
    have "(2::rat) powi (- 1074) \<le> 2 powi (- 1)"
      by (intro power_int_increasing) simp_all
    then show ?thesis using True by simp
  next
    case False
    then have "2 ^ 52 * ?u \<le> r * N" using quantum_lower [OF xpos] by simp
    then have "2 ^ 52 * ?u \<le> 2 ^ 51" using x_lt IN Nle by linarith
    then show ?thesis by simp
  qed
  moreover have "\<bar>toDouble (r * N) - r * N\<bar> \<le> ?u / 2"
    using xpos by (rule toDouble_error)
  ultimately have "I \<le> toDouble (r * N)" and "toDouble (r * N) < I + 1"
    using x_ge x_lt by linarith+
  then have "\<lfloor>toDouble (r * N)\<rfloor> = int i"
    unfolding I_def by (intro floor_unique) simp_all
  then show ?thesis
    using dbl rpos r1 unfolding N_def by (intro exI [of _ r]) simp
qed

lemma isDouble_zero [simp]: "isDouble 0"
  by (simp add: isDouble_def)

lemma unitInterval_zero [simp]: "unitInterval 0"
  by (simp add: unitInterval_def)

subsection \<open>JavaScript primitives\<close>

lemma elemAt_in_range: "i < length xs \<Longrightarrow> elemAt xs i = Some (xs ! i)"
  by (simp add: elemAt_def)

lemma randomIndex_less:
  assumes "unitInterval r" and "0 < n"
  shows "randomIndex r n < n"
proof -
  have "toDouble (r * of_nat n) < of_nat n"
    using assms by (intro product_below) (simp_all add: unitInterval_def)
  then have "\<lfloor>toDouble (r * of_nat n)\<rfloor> < int n"
    by (simp add: floor_less_iff)
  then show ?thesis
    unfolding randomIndex_def using assms(2) by linarith
qed

text \<open>
  Every index below \<open>n\<close> is drawn by some double, as long as the doubles below \<open>n\<close> are
  closer than 1 to each other.
\<close>

lemma randomIndex_reachable:
  assumes "i < n" and "n \<le> 2 ^ 51"
  shows "\<exists>r. unitInterval r \<and> randomIndex r n = i"
  using index_reachable [OF assms] by (auto simp add: unitInterval_def randomIndex_def)

lemma elemAt_randomIndex:
  assumes "unitInterval r" and "xs \<noteq> []"
  shows "elemAt xs (randomIndex r (length xs)) = Some (xs ! randomIndex r (length xs))"
    and "xs ! randomIndex r (length xs) \<in> set xs"
  using randomIndex_less [OF assms(1), of "length xs"] assms(2)
  by (simp_all add: elemAt_def)

subsection \<open>The entry point, step by step\<close>

lemma setAvoid_storageManager [simp]:
  "storageManager (setAvoidImmediateRepeat b st) = storageManager st"
  by (simp add: setAvoidImmediateRepeat_def Let_def)

lemma setAvoid_flag [simp]:
  "avoidImmediateRepeat (setAvoidImmediateRepeat b st) = b"
  by (simp add: setAvoidImmediateRepeat_def Let_def)

lemma setAvoid_selected [simp]:
  "selectedStudents (setAvoidImmediateRepeat b st) = (if b then selectedStudents st else {||})"
  by (simp add: setAvoidImmediateRepeat_def Let_def)

lemma setAvoid_last [simp]:
  "lastSelectedStudent (setAvoidImmediateRepeat b st) = lastSelectedStudent st"
  by (simp add: setAvoidImmediateRepeat_def Let_def)

lemma available_setAvoid [simp]:
  "availableStudentsOf (setAvoidImmediateRepeat b st) students algorithm =
     availableStudentsOf st students algorithm"
  by (simp add: availableStudentsOf_def filterStudentsBySpecialStatus_def)

lemma available_subset: "set (availableStudentsOf st students algorithm) \<subseteq> set students"
  by (auto simp add: availableStudentsOf_def filterStudentsBySpecialStatus_def
      split: option.splits)

lemma available_nonempty_roster:
  "availableStudentsOf st students algorithm \<noteq> [] \<Longrightarrow> students \<noteq> []"
  using available_subset [of st students algorithm] by auto

lemma available_no_storage:
  "storageManager st = None \<Longrightarrow> availableStudentsOf st students algorithm = students"
  by (simp add: availableStudentsOf_def)

lemma available_fair: "availableStudentsOf st students Fair = students"
  by (simp add: availableStudentsOf_def)

text \<open>A non-empty roster of which nothing is left: no policy runs.\<close>

lemma selectStudent_none_available:
  assumes "students \<noteq> []" and "availableStudentsOf st students algorithm = []"
  shows "selectStudent st students algorithm opts d =
           (Inr None, setAvoidImmediateRepeat (avoidOption opts) st)"
proof -
  have "algorithm \<noteq> Fair \<and> storageManager st \<noteq> None"
    using assms by (auto simp add: availableStudentsOf_def split: if_splits)
  then show ?thesis
    using assms by (simp add: selectStudent_def Let_def)
qed

text \<open>Otherwise the policy runs on what is left, and a student it returns is recorded.\<close>

lemma selectStudent_run:
  assumes "availableStudentsOf st students algorithm \<noteq> []"
    and "runAlgorithm (setAvoidImmediateRepeat (avoidOption opts) st)
           (availableStudentsOf st students algorithm) algorithm opts d = (res, st2)"
  shows "selectStudent st students algorithm opts d =
           (res, case res of
                   Inr (Some s) \<Rightarrow>
                     updateSelection st2 (availableStudentsOf st students algorithm) s
                 | _ \<Rightarrow> st2)"
  using available_nonempty_roster [OF assms(1)] assms
  by (simp add: selectStudent_def Let_def split: sum.splits option.splits)

lemma runAlgorithm_engine:
  "snd (runAlgorithm st available algorithm opts d) = st
   \<or> snd (runAlgorithm st available algorithm opts d) = st\<lparr>selectedStudents := {||}\<rparr>"
  by (cases algorithm) (simp_all add: runAlgorithm_def roundRobin_def Let_def)

lemma updateSelection_flag:
  "avoidImmediateRepeat (updateSelection st available s) = avoidImmediateRepeat st"
  by (simp add: updateSelection_def Let_def)

lemma updateSelection_off:
  "\<not> avoidImmediateRepeat st \<Longrightarrow>
     selectedStudents (updateSelection st available s) = selectedStudents st"
  by (simp add: updateSelection_def Let_def)

subsection \<open>The policies\<close>

lemma fairRandom_off:
  assumes "\<not> avoidImmediateRepeat st" and "students \<noteq> []" and "unitInterval r"
  shows "fairRandom st students r = Some (students ! randomIndex r (length students))"
proof (cases "length students = 1")
  case True
  then have "randomIndex r (length students) = 0"
    using randomIndex_less [OF assms(3), of 1] by simp
  then show ?thesis using True assms(2) by (simp add: fairRandom_def elemAt_def)
next
  case False
  then show ?thesis
    using assms elemAt_randomIndex(1) [OF assms(3,2)] by (simp add: fairRandom_def)
qed

lemma fairRandom_pool:
  assumes "students \<noteq> []" and "unitInterval r"
  shows "fairRandom st students r =
           Some (fairPool (avoidImmediateRepeat st) (selectedStudents st) students
                   ! randomIndex r
                       (length (fairPool (avoidImmediateRepeat st) (selectedStudents st) students)))"
proof (cases "length students = 1")
  case True
  then have "fairPool (avoidImmediateRepeat st) (selectedStudents st) students = students"
    by (simp add: fairPool_def)
  moreover have "randomIndex r (length students) = 0"
    using True randomIndex_less [OF assms(2), of 1] by simp
  ultimately show ?thesis
    using True assms(1) by (simp add: fairRandom_def elemAt_def)
next
  case False
  let ?un = "filter (\<lambda>s. student_id s |\<notin>| selectedStudents st) students"
  show ?thesis
  proof (cases "avoidImmediateRepeat st \<and> fewerThanAllButOne st students \<and> ?un \<noteq> []")
    case True
    then have "fairPool (avoidImmediateRepeat st) (selectedStudents st) students = ?un"
      by (simp add: fairPool_def fewerThanAllButOne_def)
    moreover have "fairRandom st students r = Some (?un ! randomIndex r (length ?un))"
      using True False assms(1) elemAt_randomIndex(1) [OF assms(2), of ?un]
      by (simp add: fairRandom_def Let_def)
    ultimately show ?thesis by simp
  next
    case no: False
    then have "fairPool (avoidImmediateRepeat st) (selectedStudents st) students = students"
      by (auto simp add: fairPool_def fewerThanAllButOne_def)
    moreover have "fairRandom st students r = Some (students ! randomIndex r (length students))"
      using no False assms(1) elemAt_randomIndex(1) [OF assms(2,1)]
      by (auto simp add: fairRandom_def Let_def)
    ultimately show ?thesis by simp
  qed
qed

lemma groupRandom_negative:
  assumes "g < 0"
  shows "groupRandom st students g d = None"
  using assms by (simp add: groupRandom_def groupsOf_def elemAt_def Let_def)

lemma leastCalledOf_min:
  assumes "candidates \<noteq> []" and "unitInterval r"
  shows "\<exists>s. leastCalledOf candidates r = Some s \<and> s \<in> set candidates
           \<and> callCountOf s = Min (callCountOf ` set candidates)"
proof -
  let ?m = "Min (set (map callCountOf candidates))"
  let ?least = "filter (\<lambda>s. callCountOf s = ?m) candidates"
  have "?m \<in> set (map callCountOf candidates)"
    using assms(1) by (intro Min_in) simp_all
  then have ne: "?least \<noteq> []"
    by (auto simp add: filter_empty_conv)
  have "?least ! randomIndex r (length ?least) \<in> set ?least"
    using elemAt_randomIndex(2) [OF assms(2) ne] .
  then show ?thesis
    using elemAt_randomIndex(1) [OF assms(2) ne]
    by (simp add: leastCalledOf_def Let_def)
qed

lemma leastCalledFirst_candidates:
  assumes "students \<noteq> []" and "unitInterval r"
  shows "\<exists>s. leastCalledFirst st students r = Some s
           \<and> s \<in> set (if avoidImmediateRepeat st
                          \<and> filter (\<lambda>s. student_id s |\<notin>| selectedStudents st) students \<noteq> []
                        then filter (\<lambda>s. student_id s |\<notin>| selectedStudents st) students
                        else students)
           \<and> callCountOf s =
               Min (callCountOf `
                 set (if avoidImmediateRepeat st
                          \<and> filter (\<lambda>s. student_id s |\<notin>| selectedStudents st) students \<noteq> []
                        then filter (\<lambda>s. student_id s |\<notin>| selectedStudents st) students
                        else students))"
proof (cases "length students = 1")
  case True
  then obtain x where x: "students = [x]"
    by (cases students) simp_all
  then show ?thesis
    by (simp add: leastCalledFirst_def elemAt_def)
next
  case False
  let ?sorted = "sort_key (leastCalledKey st) students"
  let ?un = "filter (\<lambda>s. student_id s |\<notin>| selectedStudents st) ?sorted"
  have sets: "set ?sorted = set students"
    "set ?un = set (filter (\<lambda>s. student_id s |\<notin>| selectedStudents st) students)"
    by simp_all
  have empty_iff: "(?un = []) = (filter (\<lambda>s. student_id s |\<notin>| selectedStudents st) students = [])"
    using sets(2) by (metis set_empty)
  have sorted_ne: "?sorted \<noteq> []"
    using assms(1) sets(1) by (metis set_empty)
  show ?thesis
  proof (cases "avoidImmediateRepeat st \<and> ?un \<noteq> []")
    case True
    then have "leastCalledFirst st students r = leastCalledOf ?un r"
      using False assms(1) by (simp add: leastCalledFirst_def Let_def)
    then show ?thesis
      using leastCalledOf_min [OF _ assms(2), of ?un] True empty_iff sets(2) by auto
  next
    case no: False
    then have "leastCalledFirst st students r = leastCalledOf ?sorted r"
      using False assms(1) by (auto simp add: leastCalledFirst_def Let_def)
    then show ?thesis
      using leastCalledOf_min [OF sorted_ne assms(2)] no empty_iff sets(1) by auto
  qed
qed

lemma selectStudent_leastCalled:
  assumes "availableStudentsOf st students LeastCalled \<noteq> []" and "unitInterval (rnd1 d)"
  shows "\<exists>s. selectStudent st students LeastCalled opts d =
               (Inr (Some s),
                updateSelection (setAvoidImmediateRepeat (avoidOption opts) st)
                  (availableStudentsOf st students LeastCalled) s)
           \<and> s \<in> set (leastCalledCandidates (avoidOption opts) (selectedStudents st)
                          (availableStudentsOf st students LeastCalled))
           \<and> callCountOf s =
               Min (callCountOf `
                 set (leastCalledCandidates (avoidOption opts) (selectedStudents st)
                        (availableStudentsOf st students LeastCalled)))"
proof -
  let ?st1 = "setAvoidImmediateRepeat (avoidOption opts) st"
  let ?av = "availableStudentsOf st students LeastCalled"
  have cands: "(if avoidImmediateRepeat ?st1
                   \<and> filter (\<lambda>s. student_id s |\<notin>| selectedStudents ?st1) ?av \<noteq> []
                then filter (\<lambda>s. student_id s |\<notin>| selectedStudents ?st1) ?av
                else ?av)
               = leastCalledCandidates (avoidOption opts) (selectedStudents st) ?av"
    by (simp add: leastCalledCandidates_def)
  obtain s where s: "leastCalledFirst ?st1 ?av (rnd1 d) = Some s"
    "s \<in> set (leastCalledCandidates (avoidOption opts) (selectedStudents st) ?av)"
    "callCountOf s = Min (callCountOf `
        set (leastCalledCandidates (avoidOption opts) (selectedStudents st) ?av))"
    using leastCalledFirst_candidates [OF assms, of ?st1] unfolding cands by blast
  have run: "runAlgorithm ?st1 ?av LeastCalled opts d = (Inr (Some s), ?st1)"
    using s(1) by (simp add: runAlgorithm_def)
  show ?thesis
    using selectStudent_run [OF assms(1) run] s(2,3) by simp
qed

text \<open>
  The walk on integer weights from a double below \<open>2 ^ 53\<close>: a remainder that stays
  positive is a double, so that no subtraction rounds, and the others keep their sign.
\<close>

lemma walkWeights_step:
  assumes "isDouble x" and "x < 2 ^ 53" and "0 \<le> w"
  shows "(toDouble (x - of_int w) \<le> 0) = (x \<le> of_int w)"
    and "\<not> x \<le> of_int w \<Longrightarrow> toDouble (x - of_int w) = x - of_int w"
proof -
  have exact: "toDouble (x - of_int w) = x - of_int w" if "\<not> x \<le> of_int w"
    using exact_difference [OF assms] that by (simp add: isDouble_def)
  show "(toDouble (x - of_int w) \<le> 0) = (x \<le> of_int w)"
  proof (cases "x \<le> of_int w")
    case True
    then show ?thesis using toDouble_nonpos [of "x - of_int w"] by simp
  next
    case False
    then show ?thesis using exact [OF False] by simp
  qed
  show "\<not> x \<le> of_int w \<Longrightarrow> toDouble (x - of_int w) = x - of_int w"
    using exact .
qed

lemma walkWeights_member:
  assumes "walkWeights items x = Some s"
  shows "s \<in> fst ` set items"
  using assms by (induction items arbitrary: x) (auto simp add: Let_def split: if_splits)

lemma walkWeights_first:
  assumes "walkWeights items x = Some s"
    and "isDouble x" and "x < 2 ^ 53" and "\<forall>w \<in> set (map snd items). 0 \<le> w"
  shows "\<exists>k<length items. s = fst (items ! k)
           \<and> x \<le> of_int (sum_list (map snd (take (Suc k) items)))
           \<and> (\<forall>j<k. of_int (sum_list (map snd (take (Suc j) items))) < x)"
  using assms
proof (induction items arbitrary: x)
  case Nil
  then show ?case by simp
next
  case (Cons item rest)
  have w: "0 \<le> snd item" using Cons.prems(4) by simp
  note step = walkWeights_step [OF Cons.prems(2,3) w]
  show ?case
  proof (cases "x \<le> of_int (snd item)")
    case True
    then have "s = fst item"
      using Cons.prems(1) step(1) by (simp add: Let_def)
    then show ?thesis
      using True by (intro exI [of _ 0]) simp
  next
    case False
    then have walk: "walkWeights rest (x - of_int (snd item)) = Some s"
      using Cons.prems(1) step by (simp add: Let_def)
    have dbl: "isDouble (x - of_int (snd item))"
      using step(2) [OF False] by (simp add: isDouble_def)
    have small: "x - of_int (snd item) < 2 ^ 53"
      using Cons.prems(3) w by (simp add: less_le_trans [of _ x] add_increasing2)
    have rest: "\<forall>w \<in> set (map snd rest). 0 \<le> w"
      using Cons.prems(4) by simp
    from Cons.IH [OF walk dbl small rest] obtain k where k: "k < length rest" "s = fst (rest ! k)"
      "x - of_int (snd item) \<le> of_int (sum_list (map snd (take (Suc k) rest)))"
      "\<forall>j<k. of_int (sum_list (map snd (take (Suc j) rest))) < x - of_int (snd item)"
      by blast
    have later: "of_int (sum_list (map snd (take (Suc j) (item # rest)))) < x" if "j < Suc k" for j
    proof (cases j)
      case 0
      then show ?thesis using False by simp
    next
      case (Suc j')
      then have "j' < k" using that by simp
      then have "of_int (sum_list (map snd (take (Suc j') rest))) < x - of_int (snd item)"
        using k(4) by blast
      then show ?thesis
        using Suc by simp
    qed
    show ?thesis
      using k(1,2,3) later by (intro exI [of _ "Suc k"]) simp
  qed
qed

lemma walkWeights_returns:
  assumes "items \<noteq> []" and "x \<le> of_int (sum_list (map snd items))"
    and "isDouble x" and "x < 2 ^ 53" and "\<forall>w \<in> set (map snd items). 0 \<le> w"
  shows "\<exists>s. walkWeights items x = Some s"
  using assms
proof (induction items arbitrary: x)
  case Nil
  then show ?case by simp
next
  case (Cons item rest)
  have w: "0 \<le> snd item" using Cons.prems(5) by simp
  note step = walkWeights_step [OF Cons.prems(3,4) w]
  show ?case
  proof (cases "x \<le> of_int (snd item)")
    case True
    then show ?thesis using step(1) by (simp add: Let_def)
  next
    case False
    have le: "x - of_int (snd item) \<le> of_int (sum_list (map snd rest))"
      using Cons.prems(2) by simp
    then have ne: "rest \<noteq> []"
      using False by auto
    have dbl: "isDouble (x - of_int (snd item))"
      using step(2) [OF False] by (simp add: isDouble_def)
    have small: "x - of_int (snd item) < 2 ^ 53"
      using Cons.prems(4) w by (simp add: less_le_trans [of _ x] add_increasing2)
    have rest: "\<forall>w \<in> set (map snd rest). 0 \<le> w"
      using Cons.prems(5) by simp
    from Cons.IH [OF ne le dbl small rest] show ?thesis
      using False step by (simp add: Let_def)
  qed
qed

lemma maxCallCount_ge:
  assumes "s \<in> set students"
  shows "callCountOf s \<le> maxCallCount students"
  using assms by (simp add: maxCallCount_def)

lemma studentsWithWeights_policy:
  "studentsWithWeights st students =
     map (\<lambda>s. (s, policyWeight (avoidImmediateRepeat st) (selectedStudents st) students s))
       students"
  by (auto simp add: studentsWithWeights_def policyWeight_def fewerThanAllButOne_def Let_def)

lemma policyWeight_positive:
  assumes "s \<in> set students"
  shows "1 \<le> policyWeight avoid chosen students s"
  using maxCallCount_ge [OF assms] by (simp add: policyWeight_def)

lemma sum_list_ge_length:
  assumes "\<forall>x \<in> set xs. (1::int) \<le> x"
  shows "int (length xs) \<le> sum_list xs"
  using assms by (induction xs) auto

lemma selectByWeight_first:
  assumes "items \<noteq> []" and "0 < sum_list (map snd items)" and "unitInterval r"
    and "sum_list (map snd items) < 2 ^ 53" and "\<forall>w \<in> set (map snd items). 0 \<le> w"
  shows "\<exists>k<length items. selectByWeight items r = Inr (Some (fst (items ! k)))
           \<and> toDouble (r * of_int (sum_list (map snd items)))
                \<le> of_int (sum_list (map snd (take (Suc k) items)))
           \<and> (\<forall>j<k. of_int (sum_list (map snd (take (Suc j) items)))
                       < toDouble (r * of_int (sum_list (map snd items))))"
proof -
  let ?total = "sum_list (map snd items)"
  let ?x = "toDouble (r * of_int ?total)"
  have r: "isDouble r" "0 \<le> r" "r < 1"
    using assms(3) by (simp_all add: unitInterval_def)
  have "1 \<le> ?total"
    using assms(2) by linarith
  then have "(1::rat) \<le> of_int ?total"
    by (simp only: of_int_1_le_iff)
  then have below: "?x < of_int ?total"
    using r by (intro product_below)
  have "(of_int ?total :: rat) < of_int (2 ^ 53)"
    using assms(4) by (simp only: of_int_less_iff)
  then have small: "?x < 2 ^ 53"
    using below by simp
  have dbl: "isDouble ?x"
    using r(2) assms(2) by (intro isDouble_toDouble) simp
  have le: "?x \<le> of_int ?total"
    using below by simp
  from walkWeights_returns [OF assms(1) le dbl small assms(5)]
  obtain s where s: "walkWeights items ?x = Some s" by blast
  have sel: "selectByWeight items r = Inr (Some s)"
    using assms(2) s by (simp add: selectByWeight_def Let_def)
  from walkWeights_first [OF s dbl small assms(5)] show ?thesis
    unfolding sel by blast
qed

lemma selectByWeight_member:
  assumes "items \<noteq> []" and "unitInterval r"
  shows "\<exists>item \<in> set items. selectByWeight items r = Inr (Some (fst item))"
proof (cases "sum_list (map snd items) \<le> 0")
  case True
  then show ?thesis
    using elemAt_randomIndex [OF assms(2,1)] by (auto simp add: selectByWeight_def Let_def)
next
  case False
  let ?x = "toDouble (r * of_int (sum_list (map snd items)))"
  show ?thesis
  proof (cases "walkWeights items ?x")
    case None
    then have "selectByWeight items r = Inr (Some (fst (last items)))"
      using False assms(1) by (simp add: selectByWeight_def Let_def)
    then show ?thesis
      using last_in_set [OF assms(1)] by blast
  next
    case (Some s)
    then have "selectByWeight items r = Inr (Some s)"
      using False by (simp add: selectByWeight_def Let_def)
    then show ?thesis
      using walkWeights_member [OF Some] by auto
  qed
qed

lemma selectByWeight_fallback:
  assumes "items \<noteq> []" and "sum_list (map snd items) \<le> 0" and "unitInterval r"
  shows "selectByWeight items r = Inr (Some (fst (items ! randomIndex r (length items))))"
  using assms elemAt_randomIndex(1) [OF assms(3,1)]
  by (simp add: selectByWeight_def Let_def)

subsection \<open>The set of selected ids\<close>

lemma chosen_count:
  assumes "distinct (map student_id xs)"
  shows "length (filter (\<lambda>s. student_id s |\<in>| chosen) xs) \<le> fcard chosen"
proof -
  let ?ys = "filter (\<lambda>s. student_id s |\<in>| chosen) xs"
  have d: "distinct (map student_id ?ys)"
    using assms by (rule distinct_map_filter)
  have "set (map student_id ?ys) \<subseteq> fset chosen"
    by auto
  then have "card (set (map student_id ?ys)) \<le> card (fset chosen)"
    by (intro card_mono) simp_all
  then show ?thesis
    using distinct_card [OF d] by (simp add: fcard.rep_eq)
qed

lemma some_unchosen:
  assumes "distinct (map student_id xs)" and "fcard chosen < length xs"
  shows "filter (\<lambda>s. student_id s |\<notin>| chosen) xs \<noteq> []"
proof
  assume "filter (\<lambda>s. student_id s |\<notin>| chosen) xs = []"
  then have "length (filter (\<lambda>s. student_id s |\<in>| chosen) xs) = length xs"
    using sum_length_filter_compl [of "\<lambda>s. student_id s |\<in>| chosen" xs] by simp
  then show False
    using chosen_count [OF assms(1), of chosen] assms(2) by simp
qed

lemma updateSelection_storageManager [simp]:
  "storageManager (updateSelection st available s) = storageManager st"
  by (simp add: updateSelection_def Let_def)

lemma available_cong:
  "storageManager st' = storageManager st \<Longrightarrow>
     availableStudentsOf st' students algorithm = availableStudentsOf st students algorithm"
  by (simp add: availableStudentsOf_def filterStudentsBySpecialStatus_def)

lemma updateSelection_on:
  assumes "avoidImmediateRepeat st"
  shows "selectedStudents (updateSelection st available s) =
           (if length available \<le> fcard (finsert (student_id s) (selectedStudents st))
            then {||} else finsert (student_id s) (selectedStudents st))"
  using assms by (simp add: updateSelection_def Let_def)

lemma leastCalled_step:
  assumes avoid: "avoidOption opts"
    and ne: "availableStudentsOf st students LeastCalled \<noteq> []"
    and dist: "distinct (map student_id (availableStudentsOf st students LeastCalled))"
    and draw: "unitInterval (rnd1 d)"
    and room: "fcard (selectedStudents st) < length (availableStudentsOf st students LeastCalled)"
  shows "\<exists>s. fst (selectStudent st students LeastCalled opts d) = Inr (Some s)
           \<and> s \<in> set (availableStudentsOf st students LeastCalled)
           \<and> student_id s |\<notin>| selectedStudents st
           \<and> selectedStudents (snd (selectStudent st students LeastCalled opts d)) =
               (if length (availableStudentsOf st students LeastCalled)
                     \<le> Suc (fcard (selectedStudents st))
                then {||} else finsert (student_id s) (selectedStudents st))
           \<and> storageManager (snd (selectStudent st students LeastCalled opts d))
               = storageManager st"
proof -
  let ?av = "availableStudentsOf st students LeastCalled"
  let ?un = "filter (\<lambda>s. student_id s |\<notin>| selectedStudents st) ?av"
  have un: "?un \<noteq> []"
    using some_unchosen [OF dist room] .
  then have cands: "leastCalledCandidates (avoidOption opts) (selectedStudents st) ?av = ?un"
    using avoid by (simp add: leastCalledCandidates_def)
  obtain s where s: "selectStudent st students LeastCalled opts d =
               (Inr (Some s),
                updateSelection (setAvoidImmediateRepeat (avoidOption opts) st) ?av s)"
    "s \<in> set ?un"
    using selectStudent_leastCalled [OF ne draw, of opts] unfolding cands by blast
  have notin: "student_id s |\<notin>| selectedStudents st" and mem: "s \<in> set ?av"
    using s(2) by simp_all
  have "selectedStudents (snd (selectStudent st students LeastCalled opts d)) =
               (if length ?av \<le> Suc (fcard (selectedStudents st))
                then {||} else finsert (student_id s) (selectedStudents st))"
    using avoid notin by (simp add: s(1) updateSelection_on fcard_finsert_disjoint)
  then show ?thesis
    using s(1) notin mem by simp
qed

lemma runAlgorithm_engine_same:
  "algorithm \<noteq> RoundRobin \<Longrightarrow> snd (runAlgorithm st available algorithm opts d) = st"
  by (cases algorithm) (simp_all add: runAlgorithm_def)

lemma selectStudent_selected_set:
  assumes avoid: "avoidOption opts"
    and res: "fst (selectStudent st students algorithm opts d) = Inr (Some s)"
  shows "fcard (selectedStudents (snd (selectStudent st students algorithm opts d)))
           < length (availableStudentsOf st students algorithm)
         \<and> (algorithm \<noteq> RoundRobin \<longrightarrow>
              selectedStudents (snd (selectStudent st students algorithm opts d)) =
                (if length (availableStudentsOf st students algorithm)
                      \<le> fcard (finsert (student_id s) (selectedStudents st))
                 then {||} else finsert (student_id s) (selectedStudents st)))"
proof -
  let ?st1 = "setAvoidImmediateRepeat (avoidOption opts) st"
  let ?av = "availableStudentsOf st students algorithm"
  have students: "students \<noteq> []"
    using res by (auto simp add: selectStudent_def)
  have ne: "?av \<noteq> []"
    using res selectStudent_none_available [OF students, of st algorithm opts d] by auto
  obtain r st2 where run: "runAlgorithm ?st1 ?av algorithm opts d = (r, st2)"
    by (cases "runAlgorithm ?st1 ?av algorithm opts d")
  have r: "r = Inr (Some s)"
    using res selectStudent_run [OF ne run] by simp
  have st': "snd (selectStudent st students algorithm opts d) = updateSelection st2 ?av s"
    using selectStudent_run [OF ne run] r by simp
  have on: "avoidImmediateRepeat st2"
    using runAlgorithm_engine [of ?st1 ?av algorithm opts d] run avoid by auto
  have small: "fcard (selectedStudents (updateSelection st2 ?av s)) < length ?av"
    using ne by (auto simp add: updateSelection_on [OF on] fcard_fempty)
  have same: "selectedStudents st2 = selectedStudents st" if "algorithm \<noteq> RoundRobin"
    using runAlgorithm_engine_same [OF that, of ?st1 ?av opts d] run avoid by simp
  show ?thesis
    using small same by (simp add: st' updateSelection_on [OF on])
qed

lemma fcard_fset_of_list_distinct:
  "distinct xs \<Longrightarrow> fcard (fset_of_list xs) = length xs"
  by (simp add: fcard.rep_eq fset_of_list.rep_eq distinct_card)

lemma leastCalled_cycle_prefix:
  assumes avoid: "avoidOption opts"
    and ne: "availableStudentsOf st students LeastCalled \<noteq> []"
    and dist: "distinct (map student_id (availableStudentsOf st students LeastCalled))"
    and draws: "\<forall>i. unitInterval (rnd1 (ds i))"
    and start: "selectedStudents st = {||}"
    and k: "k \<le> length (availableStudentsOf st students LeastCalled)"
  shows "\<exists>chosen.
           fst (selectRepeatedly k st students LeastCalled opts ds)
             = map (\<lambda>s. Inr (Some s)) chosen
           \<and> length chosen = k
           \<and> distinct (map student_id chosen)
           \<and> set chosen \<subseteq> set (availableStudentsOf st students LeastCalled)
           \<and> storageManager (snd (selectRepeatedly k st students LeastCalled opts ds))
               = storageManager st
           \<and> selectedStudents (snd (selectRepeatedly k st students LeastCalled opts ds))
               = (if k = length (availableStudentsOf st students LeastCalled) then {||}
                  else fset_of_list (map student_id chosen))"
  using k
proof (induction k)
  case 0
  then show ?case
    using ne start by simp
next
  case (Suc k)
  let ?av = "availableStudentsOf st students LeastCalled"
  let ?run = "selectRepeatedly k st students LeastCalled opts ds"
  have k: "k < length ?av" using Suc.prems by simp
  then obtain chosen where c: "fst ?run = map (\<lambda>s. Inr (Some s)) chosen"
    "length chosen = k" "distinct (map student_id chosen)" "set chosen \<subseteq> set ?av"
    "storageManager (snd ?run) = storageManager st"
    "selectedStudents (snd ?run) = fset_of_list (map student_id chosen)"
    using Suc.IH by auto
  let ?stk = "snd ?run"
  have av: "availableStudentsOf ?stk students LeastCalled = ?av"
    using c(5) by (rule available_cong)
  have card: "fcard (selectedStudents ?stk) = k"
    unfolding c(6) fcard_fset_of_list_distinct [OF c(3)] using c(2) by simp
  have room: "fcard (selectedStudents ?stk) < length (availableStudentsOf ?stk students LeastCalled)"
    using card k av by simp
  have draw: "unitInterval (rnd1 (ds k))" using draws by simp
  from leastCalled_step [OF avoid _ _ draw room] ne dist
  obtain s where s: "fst (selectStudent ?stk students LeastCalled opts (ds k)) = Inr (Some s)"
    "s \<in> set ?av" "student_id s |\<notin>| selectedStudents ?stk"
    "selectedStudents (snd (selectStudent ?stk students LeastCalled opts (ds k))) =
       (if length ?av \<le> Suc k then {||} else finsert (student_id s) (selectedStudents ?stk))"
    "storageManager (snd (selectStudent ?stk students LeastCalled opts (ds k)))
       = storageManager ?stk"
    unfolding av card by auto
  have run: "selectRepeatedly (Suc k) st students LeastCalled opts ds =
               (fst ?run @ [fst (selectStudent ?stk students LeastCalled opts (ds k))],
                snd (selectStudent ?stk students LeastCalled opts (ds k)))"
    by (simp add: split_beta)
  have fresh: "student_id s \<notin> set (map student_id chosen)"
    using s(3) c(6) by (simp add: fset_of_list.rep_eq)
  have "fst (selectRepeatedly (Suc k) st students LeastCalled opts ds)
          = map (\<lambda>s. Inr (Some s)) (chosen @ [s])"
    by (simp add: run c(1) s(1) del: selectRepeatedly.simps)
  moreover have "length (chosen @ [s]) = Suc k"
    using c(2) by simp
  moreover have "distinct (map student_id (chosen @ [s]))"
    using c(3) fresh by simp
  moreover have "set (chosen @ [s]) \<subseteq> set ?av"
    using c(4) s(2) by simp
  moreover have "storageManager (snd (selectRepeatedly (Suc k) st students LeastCalled opts ds))
                   = storageManager st"
    by (simp add: run s(5) c(5) del: selectRepeatedly.simps)
  moreover have "selectedStudents (snd (selectRepeatedly (Suc k) st students LeastCalled opts ds))
                   = (if Suc k = length ?av then {||}
                      else fset_of_list (map student_id (chosen @ [s])))"
    using k by (auto simp add: run s(4) c(6) simp del: selectRepeatedly.simps)
  ultimately show ?case
    by blast
qed

lemma leastCalled_cycle:
  assumes avoid: "avoidOption opts"
    and ne: "availableStudentsOf st students LeastCalled \<noteq> []"
    and dist: "distinct (map student_id (availableStudentsOf st students LeastCalled))"
    and draws: "\<forall>i. unitInterval (rnd1 (ds i))"
    and start: "selectedStudents st = {||}"
  shows "\<exists>chosen.
           fst (selectRepeatedly (length (availableStudentsOf st students LeastCalled))
                  st students LeastCalled opts ds)
             = map (\<lambda>s. Inr (Some s)) chosen
           \<and> distinct (map student_id chosen)
           \<and> set chosen = set (availableStudentsOf st students LeastCalled)
           \<and> selectedStudents
               (snd (selectRepeatedly (length (availableStudentsOf st students LeastCalled))
                       st students LeastCalled opts ds)) = {||}"
proof -
  let ?av = "availableStudentsOf st students LeastCalled"
  let ?run = "selectRepeatedly (length ?av) st students LeastCalled opts ds"
  from leastCalled_cycle_prefix [OF avoid ne dist draws start order_refl]
  obtain chosen where c: "fst ?run = map (\<lambda>s. Inr (Some s)) chosen"
    "length chosen = length ?av" "distinct (map student_id chosen)" "set chosen \<subseteq> set ?av"
    "selectedStudents (snd ?run) = {||}"
    by auto
  have "distinct chosen" and "distinct ?av"
    using c(3) dist by (auto dest: distinct_map [THEN iffD1])
  then have "card (set chosen) = card (set ?av)"
    using c(2) by (simp add: distinct_card)
  then have "set chosen = set ?av"
    using c(4) by (intro card_subset_eq) simp_all
  then show ?thesis
    using c(1,3,5) by blast
qed

subsection \<open>Every policy returns one of the students it is given\<close>

lemma fairRandom_member:
  assumes "students \<noteq> []" and "unitInterval r"
  shows "\<exists>s \<in> set students. fairRandom st students r = Some s"
proof (cases "length students = 1")
  case True
  then show ?thesis
    using assms(1) by (cases students) (simp_all add: fairRandom_def elemAt_def)
next
  case False
  let ?un = "filter (\<lambda>s. student_id s |\<notin>| selectedStudents st) students"
  show ?thesis
  proof (cases "avoidImmediateRepeat st \<and> fewerThanAllButOne st students \<and> ?un \<noteq> []")
    case True
    then have "fairRandom st students r = Some (?un ! randomIndex r (length ?un))"
      using False assms(1) elemAt_randomIndex(1) [OF assms(2), of ?un]
      by (simp add: fairRandom_def Let_def)
    moreover have "?un ! randomIndex r (length ?un) \<in> set ?un"
      using True elemAt_randomIndex(2) [OF assms(2), of ?un] by simp
    ultimately show ?thesis by auto
  next
    case no: False
    then have "fairRandom st students r = Some (students ! randomIndex r (length students))"
      using False assms(1) elemAt_randomIndex(1) [OF assms(2,1)]
      by (auto simp add: fairRandom_def Let_def)
    then show ?thesis
      using elemAt_randomIndex(2) [OF assms(2,1)] by auto
  qed
qed

lemma weightedRandom_member:
  assumes "students \<noteq> []" and "unitInterval r"
  shows "\<exists>s \<in> set students. weightedRandom st students r = Inr (Some s)"
proof (cases "length students = 1")
  case True
  then show ?thesis
    using assms(1) by (cases students) (simp_all add: weightedRandom_def elemAt_def)
next
  case False
  let ?w = "policyWeight (avoidImmediateRepeat st) (selectedStudents st) students"
  let ?items = "map (\<lambda>s. (s, ?w s)) students"
  have ne: "?items \<noteq> []" using assms(1) by simp
  from selectByWeight_member [OF ne assms(2)]
  obtain item where item: "item \<in> set ?items" "selectByWeight ?items r = Inr (Some (fst item))"
    by blast
  have "fst item \<in> set students"
    using item(1) by auto
  moreover have "weightedRandom st students r = selectByWeight ?items r"
    using False assms(1) by (simp add: weightedRandom_def studentsWithWeights_policy)
  ultimately show ?thesis
    using item(2) by simp
qed

lemma roundRobin_member:
  assumes "students \<noteq> []"
  shows "\<exists>s \<in> set students. fst (roundRobin st students) = Some s"
proof -
  have "nat ((i + 1) mod int (length students)) < length students" for i :: int
    using assms by (simp add: nat_less_iff)
  then show ?thesis
    using assms by (auto simp add: roundRobin_def elemAt_def Let_def)
qed

lemma timeBalanced_member:
  assumes "students \<noteq> []" and "unitInterval r"
  shows "\<exists>s \<in> set students. timeBalanced st students now r = Inr (Some s)"
proof (cases "length students = 1")
  case True
  then show ?thesis
    using assms(1) by (cases students) (simp_all add: timeBalanced_def elemAt_def)
next
  case False
  let ?scores = "map (\<lambda>(i, s). (s, timeScore st (length students) (now i) s))
                   (enumerate 0 students)"
  let ?sorted = "sort_key (\<lambda>item. - snd item) ?scores"
  let ?top = "take (min 3 (length ?sorted)) ?sorted"
  have "map fst ?scores = students"
    by (simp add: comp_def split_beta)
  then have "set (map fst ?scores) = set students"
    by (rule arg_cong)
  then have fst_scores: "fst ` set ?scores \<subseteq> set students"
    by (simp only: set_map order_refl)
  have "0 < length students"
    using assms(1) by simp
  then have "0 < length ?top"
    by simp
  then have top_ne: "?top \<noteq> []"
    by (rule length_greater_0_conv [THEN iffD1])
  have "set ?top \<subseteq> set ?sorted"
    by (rule set_take_subset)
  then have top_sub: "fst ` set ?top \<subseteq> set students"
    using fst_scores by auto
  have pick: "elemAt ?top (randomIndex r (length ?top)) = Some (?top ! randomIndex r (length ?top))"
    "?top ! randomIndex r (length ?top) \<in> set ?top"
    using elemAt_randomIndex [OF assms(2) top_ne] by blast+
  have "timeBalanced st students now r = Inr (Some (fst (?top ! randomIndex r (length ?top))))"
    using False assms(1) pick(1) by (simp add: timeBalanced_def Let_def)
  moreover have "fst (?top ! randomIndex r (length ?top)) \<in> set students"
    using pick(2) top_sub by blast
  ultimately show ?thesis by auto
qed

subsection \<open>Round robin\<close>

lemma roundRobin_off:
  assumes "selectedStudents st = {||}" and "students \<noteq> []"
  shows "roundRobin st students = (Some (hd students), st)"
  using assms by (cases students) (simp_all add: roundRobin_def elemAt_def)

lemma findIndex_nth:
  assumes "distinct (map f xs)" and "j < length xs"
  shows "findIndex (\<lambda>s. Some (f s) = Some (f (xs ! j))) xs = int j"
  using assms
proof (induction xs arbitrary: j)
  case Nil
  then show ?case by simp
next
  case (Cons x xs)
  show ?case
  proof (cases j)
    case 0
    then show ?thesis by simp
  next
    case (Suc j')
    then have j': "j' < length xs" using Cons.prems(2) by simp
    then have "f (xs ! j') \<in> f ` set xs" by simp
    then have "f x \<noteq> f (xs ! j')"
      using Cons.prems(1) by auto
    moreover have "findIndex (\<lambda>s. Some (f s) = Some (f (xs ! j'))) xs = int j'"
      using Cons.IH [OF _ j'] Cons.prems(1) by simp
    ultimately show ?thesis
      using Suc by (simp add: Let_def)
  qed
qed

lemma roundRobin_result:
  assumes n: "1 < length students"
    and dist: "distinct (map student_id students)"
    and ready: "roundRobinReady students k st"
  shows "fst (roundRobin st students) = Some (students ! (k mod length students))"
proof (cases k)
  case 0
  have "students \<noteq> []" using n by auto
  then show ?thesis
    using 0 n ready by (simp add: roundRobin_def roundRobinReady_def elemAt_def)
next
  case (Suc k')
  let ?n = "length students"
  let ?j = "k' mod ?n"
  have pos: "0 < ?n" using n by linarith
  have j: "?j < ?n" using pos by (rule mod_less_divisor)
  have last: "lastSelectedStudent st = Some (student_id (students ! ?j))"
    and nonempty: "selectedStudents st \<noteq> {||}"
    using ready Suc by (simp_all add: roundRobinReady_def)
  have idx: "findIndex (\<lambda>s. Some (student_id s) = lastSelectedStudent st) students = int ?j"
    unfolding last using findIndex_nth [OF dist j] .
  have "nat ((int ?j + 1) mod int ?n) = Suc ?j mod ?n"
    by (simp add: nat_mod_distrib nat_add_distrib)
  also have "\<dots> = k mod ?n"
    using Suc by (simp add: mod_Suc_eq)
  finally have next_index: "nat ((int ?j + 1) mod int ?n) = k mod ?n" .
  have "k mod ?n < ?n" using pos by (rule mod_less_divisor)
  then show ?thesis
    using n nonempty by (auto simp add: roundRobin_def Let_def idx next_index elemAt_def)
qed

lemma roundRobin_selected:
  "selectedStudents (snd (roundRobin st students)) = selectedStudents st
   \<or> selectedStudents (snd (roundRobin st students)) = {||}"
  by (simp add: roundRobin_def Let_def)

lemma roundRobin_clears:
  assumes "1 < length students" and "avoidImmediateRepeat st"
    and "\<not> fewerThanAllButOne st students"
  shows "selectedStudents (snd (roundRobin st students)) = {||}"
  using assms by (auto simp add: roundRobin_def Let_def)

lemma roundRobin_keeps:
  "storageManager (snd (roundRobin st students)) = storageManager st"
  "avoidImmediateRepeat (snd (roundRobin st students)) = avoidImmediateRepeat st"
  "lastSelectedStudent (snd (roundRobin st students)) = lastSelectedStudent st"
  by (simp_all add: roundRobin_def Let_def)

lemma roundRobin_step:
  assumes avoid: "avoidOption opts"
    and n: "1 < length (availableStudentsOf st students RoundRobin)"
    and dist: "distinct (map student_id (availableStudentsOf st students RoundRobin))"
    and ready: "roundRobinReady (availableStudentsOf st students RoundRobin) k st"
  shows "fst (selectStudent st students RoundRobin opts d)
           = Inr (Some (availableStudentsOf st students RoundRobin
                          ! (k mod length (availableStudentsOf st students RoundRobin))))"
    and "roundRobinReady (availableStudentsOf st students RoundRobin) (Suc k)
           (snd (selectStudent st students RoundRobin opts d))"
    and "storageManager (snd (selectStudent st students RoundRobin opts d)) = storageManager st"
proof -
  let ?st1 = "setAvoidImmediateRepeat (avoidOption opts) st"
  let ?av = "availableStudentsOf st students RoundRobin"
  let ?s = "?av ! (k mod length ?av)"
  let ?st2 = "snd (roundRobin ?st1 ?av)"
  have ne: "?av \<noteq> []" using n by auto
  have ready1: "roundRobinReady ?av k ?st1"
    using ready avoid by (simp add: roundRobinReady_def)
  have res: "fst (roundRobin ?st1 ?av) = Some ?s"
    using roundRobin_result [OF n dist ready1] .
  then have run: "runAlgorithm ?st1 ?av RoundRobin opts d = (Inr (Some ?s), ?st2)"
    by (simp add: runAlgorithm_def split_beta)
  have sel: "selectStudent st students RoundRobin opts d
               = (Inr (Some ?s), updateSelection ?st2 ?av ?s)"
    using selectStudent_run [OF ne run] by simp
  show "fst (selectStudent st students RoundRobin opts d) = Inr (Some ?s)"
    by (simp add: sel)
  show "storageManager (snd (selectStudent st students RoundRobin opts d)) = storageManager st"
    by (simp add: sel roundRobin_keeps)
  have on: "avoidImmediateRepeat ?st2"
    using avoid by (simp add: roundRobin_keeps)
  have small: "fcard (finsert (student_id ?s) (selectedStudents ?st2)) < length ?av"
  proof -
    have "selectedStudents ?st2 = {||} \<or> fewerThanAllButOne ?st1 ?av"
      using roundRobin_clears [OF n, of ?st1] avoid by auto
    then show ?thesis
    proof
      assume "selectedStudents ?st2 = {||}"
      then show ?thesis using n by (simp add: fcard_finsert_if fcard_fempty)
    next
      assume f: "fewerThanAllButOne ?st1 ?av"
      have "selectedStudents ?st2 = selectedStudents ?st1 \<or> selectedStudents ?st2 = {||}"
        using roundRobin_selected [of ?st1 ?av] by auto
      then have "fcard (selectedStudents ?st2) \<le> fcard (selectedStudents ?st1)"
        by (auto simp add: fcard_fempty)
      moreover have "int (fcard (selectedStudents ?st1)) < int (length ?av) - 1"
        using f by (simp add: fewerThanAllButOne_def)
      ultimately show ?thesis
        by (simp add: fcard_finsert_if)
    qed
  qed
  have after: "selectedStudents (updateSelection ?st2 ?av ?s)
                 = finsert (student_id ?s) (selectedStudents ?st2)"
    "lastSelectedStudent (updateSelection ?st2 ?av ?s) = Some (student_id ?s)"
    using small on by (simp_all add: updateSelection_def Let_def)
  show "roundRobinReady ?av (Suc k) (snd (selectStudent st students RoundRobin opts d))"
    by (simp add: sel roundRobinReady_def after)
qed

lemma roundRobin_cycle_prefix:
  assumes avoid: "avoidOption opts"
    and n: "1 < length (availableStudentsOf st students RoundRobin)"
    and dist: "distinct (map student_id (availableStudentsOf st students RoundRobin))"
    and start: "selectedStudents st = {||}"
  shows "fst (selectRepeatedly k st students RoundRobin opts ds)
           = map (\<lambda>i. Inr (Some (availableStudentsOf st students RoundRobin
                                    ! (i mod length (availableStudentsOf st students RoundRobin)))))
               [0..<k]
         \<and> roundRobinReady (availableStudentsOf st students RoundRobin) k
              (snd (selectRepeatedly k st students RoundRobin opts ds))
         \<and> storageManager (snd (selectRepeatedly k st students RoundRobin opts ds))
              = storageManager st"
proof (induction k)
  case 0
  then show ?case
    using start by (simp add: roundRobinReady_def)
next
  case (Suc k)
  let ?av = "availableStudentsOf st students RoundRobin"
  let ?run = "selectRepeatedly k st students RoundRobin opts ds"
  let ?stk = "snd ?run"
  have av: "availableStudentsOf ?stk students RoundRobin = ?av"
    using Suc.IH by (intro available_cong) simp
  have run: "selectRepeatedly (Suc k) st students RoundRobin opts ds =
               (fst ?run @ [fst (selectStudent ?stk students RoundRobin opts (ds k))],
                snd (selectStudent ?stk students RoundRobin opts (ds k)))"
    by (simp add: split_beta)
  have ready: "roundRobinReady (availableStudentsOf ?stk students RoundRobin) k ?stk"
    and n': "1 < length (availableStudentsOf ?stk students RoundRobin)"
    and dist': "distinct (map student_id (availableStudentsOf ?stk students RoundRobin))"
    unfolding av using Suc.IH n dist by simp_all
  note step = roundRobin_step [OF avoid n' dist' ready, of "ds k", unfolded av]
  show ?case
    using Suc.IH step by (simp add: run del: selectRepeatedly.simps)
qed

subsection \<open>The loop of the batch selection\<close>

lemma selectLoop_result:
  "length (fst (selectLoop k i st available algorithm opts ds selected)) = length selected + k
   \<and> fst (snd (selectLoop k i st available algorithm opts ds selected)) = available"
proof (induction k arbitrary: i st selected)
  case 0
  then show ?case by simp
next
  case (Suc k)
  obtain p st' where call: "selectStudentCall st available algorithm opts (ds i) = (p, st')"
    by (cases "selectStudentCall st available algorithm opts (ds i)")
  have idx: "findIndex (\<lambda>s. Some (student_id s) = promiseId p) xs = - 1" for xs
    by (induction xs) (simp_all add: promiseId_def)
  show ?case
    using Suc.IH [of "Suc i" st' "selected @ [p]"]
    by (simp add: call idx Let_def)
qed

subsection \<open>The group policy on a non-empty roster\<close>

text \<open>
  C1: selectStudent returns a member of every non-empty roster, under every policy, when
  no student is excluded by the storage manager. The source does not: \<^verbatim>\<open>groupRandom\<close>
  cuts four students into three groups of \<open>ceil(4 / 3) = 2\<close>, the third of which is
  empty, and when the group index drawn is 2 (here \<^verbatim>\<open>Math.random()\<close> reads 0.875) it hands
  the empty group to \<^verbatim>\<open>fairRandom\<close>, which answers \<^verbatim>\<open>null\<close>. The engine has no storage
  manager and the options are \<^verbatim>\<open>{}\<close>, so the group count is the default 3.
\<close>

theorem C1_group_returns_none_on_four_students:
  "rosterABCD \<noteq> [] \<and> storageManager (constructor None) = None
   \<and> groupCountOption noOptions = 3
   \<and> groupsOf rosterABCD 4 3 = [[studentA, studentB], [studentC, studentD], []]
   \<and> fst (selectStudent (constructor None) rosterABCD Group noOptions drawHigh) = Inr None"
  by code_simp

subsection \<open>Round robin without repeat-avoidance\<close>

text \<open>
  C2: under roundRobin with repeat-avoidance off, consecutive calls on the roster
  [A, B, C] yield A, B, C, A, ... The source does not: \<^verbatim>\<open>selectStudent\<close> empties
  \<^verbatim>\<open>selectedStudents\<close> whenever repeat-avoidance is off and adds to it only when it is
  on, and \<^verbatim>\<open>roundRobin\<close> returns \<^verbatim>\<open>students[0]\<close> whenever that set is empty. The second
  call, made on the engine the first call leaves, returns A again.
\<close>

theorem C2_round_robin_second_call_returns_first_again:
  "fst (selectStudent (constructor None) rosterABC RoundRobin noOptions drawZero)
     = Inr (Some studentA)
   \<and> lastSelectedStudent
        (snd (selectStudent (constructor None) rosterABC RoundRobin noOptions drawZero))
     = Some (student_id studentA)
   \<and> fst (selectStudent
            (snd (selectStudent (constructor None) rosterABC RoundRobin noOptions drawZero))
            rosterABC RoundRobin noOptions drawZero)
     = Inr (Some studentA)"
  by code_simp

subsection \<open>Batch selection\<close>

text \<open>
  C5: selectMultipleStudents(roster, N, policy, options) with N at most the roster length
  returns N entities with pairwise distinct ids. The source does not: it pushes the
  promises of \<^verbatim>\<open>selectStudent\<close>, removes nothing from the pool because a promise has no
  \<^verbatim>\<open>id\<close>, and every \<^verbatim>\<open>selectStudent\<close> call sets repeat-avoidance back to what the options
  say. For the roster [A, B], N = 2, the fair policy, options \<^verbatim>\<open>{}\<close> and draws that all
  read 0, both promises are settled with A. For the roster [A, B, C, D], N = 1 and the
  group policy, with the draw 0.875, the one promise is settled with \<^verbatim>\<open>null\<close>.
\<close>

theorem C5_batch_of_two_holds_the_same_student_twice:
  "fst (selectMultipleStudents (constructor None) rosterAB 2 Fair noOptions drawZeroEachCall)
     = [Settled (Inr (Some studentA)), Settled (Inr (Some studentA))]
   \<and> fst (selectMultipleStudents (constructor None) rosterABCD 1 Group noOptions
            drawHighEachCall)
     = [Settled (Inr None)]"
  by code_simp

subsection \<open>Every student excluded by the storage manager\<close>

text \<open>
  C8: for every policy other than fair, when the storage manager's predicate
  \<^verbatim>\<open>shouldExcludeStudent\<close> excludes every student of the roster, selectStudent returns
  none. No policy runs: the engine is the one \<^verbatim>\<open>setAvoidImmediateRepeat\<close> leaves (or
  the unchanged one, for the empty roster).
\<close>

theorem C8_all_excluded_returns_none:
  assumes "algorithm \<noteq> Fair"
    and "storageManager st = Some shouldExclude"
    and "\<forall>s \<in> set students. shouldExclude (student_id s) algorithm"
  shows "selectStudent st students algorithm opts d =
           (Inr None,
            if students = [] then st else setAvoidImmediateRepeat (avoidOption opts) st)"
proof (cases "students = []")
  case True
  then show ?thesis by (simp add: selectStudent_def)
next
  case False
  have sm: "storageManager (setAvoidImmediateRepeat (avoidOption opts) st) = Some shouldExclude"
    using assms(2) by (simp add: setAvoidImmediateRepeat_def Let_def)
  have "availableStudentsOf (setAvoidImmediateRepeat (avoidOption opts) st)
          students algorithm = []"
    using assms(1,3) sm
    by (simp add: availableStudentsOf_def filterStudentsBySpecialStatus_def filter_empty_conv)
  then show ?thesis
    using False assms(1) sm by (simp add: selectStudent_def Let_def)
qed

theorem C8_all_excluded_returns_none_witness:
  "Weighted \<noteq> Fair
   \<and> storageManager (constructor (Some excludeAll)) = Some excludeAll
   \<and> list_all (\<lambda>s. excludeAll (student_id s) Weighted) rosterABC
   \<and> selectStudent (constructor (Some excludeAll)) rosterABC Weighted noOptions drawZero =
       (Inr None, setAvoidImmediateRepeat False (constructor (Some excludeAll)))"
proof -
  have h1: "Weighted \<noteq> Fair" by simp
  have h2: "storageManager (constructor (Some excludeAll)) = Some excludeAll"
    by (simp add: constructor_def)
  have h3: "\<forall>s \<in> set rosterABC. excludeAll (student_id s) Weighted"
    by (simp add: excludeAll_def)
  have ne: "rosterABC \<noteq> []" by (simp add: rosterABC_def)
  have av: "avoidOption noOptions = False" by (simp add: avoidOption_def noOptions_def)
  show ?thesis
    using h1 h2 h3 C8_all_excluded_returns_none [OF h1 h2 h3, of noOptions drawZero] ne av
    by (simp add: list_all_iff)
qed

subsection \<open>The repeat-avoidance setting is taken from the options of each call\<close>

text \<open>
  C10, as stated: every call to selectStudent overwrites the engine's avoidImmediateRepeat
  flag from the options, so a call whose options omit it clears the set of selected ids.
  A call on the empty roster returns before the flag is assigned: made with options
  \<^verbatim>\<open>{}\<close> on an engine whose flag is on and whose set is \<open>{1}\<close>, it leaves both as they
  are.
\<close>

theorem C10_empty_roster_keeps_flag_and_set:
  "avoidImmediateRepeat engineAfterA = True
   \<and> selectedStudents engineAfterA = {|1|}
   \<and> opt_avoidImmediateRepeat noOptions = None
   \<and> avoidImmediateRepeat (snd (selectStudent engineAfterA [] Fair noOptions drawZero)) = True
   \<and> selectedStudents (snd (selectStudent engineAfterA [] Fair noOptions drawZero)) = {|1|}"
  by code_simp

text \<open>
  C10, amended: every call to selectStudent on a non-empty roster leaves the engine's
  avoidImmediateRepeat flag equal to options.avoidImmediateRepeat, false when the option
  is absent; and when the option is absent or false the set of selected ids is empty
  after the call, whatever the policy, the engine, the roster and the draws.
\<close>

theorem C10_flag_follows_options_on_nonempty_roster:
  assumes "students \<noteq> []"
  shows "avoidImmediateRepeat (snd (selectStudent st students algorithm opts d))
           = (opt_avoidImmediateRepeat opts = Some True)
         \<and> (opt_avoidImmediateRepeat opts \<noteq> Some True \<longrightarrow>
              selectedStudents (snd (selectStudent st students algorithm opts d)) = {||})"
proof -
  let ?st1 = "setAvoidImmediateRepeat (avoidOption opts) st"
  let ?av = "availableStudentsOf st students algorithm"
  have av: "avoidOption opts = (opt_avoidImmediateRepeat opts = Some True)"
    by (simp add: avoidOption_def split: option.splits)
  have goal: "avoidImmediateRepeat (snd (selectStudent st students algorithm opts d))
                = avoidOption opts
         \<and> (\<not> avoidOption opts \<longrightarrow>
              selectedStudents (snd (selectStudent st students algorithm opts d)) = {||})"
  proof (cases "?av = []")
    case True
    then show ?thesis
      using selectStudent_none_available [OF assms True, of opts d] by simp
  next
    case False
    obtain res st2 where run: "runAlgorithm ?st1 ?av algorithm opts d = (res, st2)"
      by (cases "runAlgorithm ?st1 ?av algorithm opts d")
    have st2: "avoidImmediateRepeat st2 = avoidOption opts"
      "\<not> avoidOption opts \<Longrightarrow> selectedStudents st2 = {||}"
      using runAlgorithm_engine [of ?st1 ?av algorithm opts d] run by auto
    show ?thesis
      using st2
      by (simp add: selectStudent_run [OF False run] updateSelection_flag updateSelection_off
            split: sum.splits option.splits)
  qed
  then show ?thesis
    by (simp add: av)
qed

theorem C10_flag_follows_options_witness:
  "rosterABC \<noteq> []
   \<and> avoidImmediateRepeat engineAfterA = True
   \<and> avoidImmediateRepeat (snd (selectStudent engineAfterA rosterABC Weighted noOptions drawZero))
       = False
   \<and> selectedStudents (snd (selectStudent engineAfterA rosterABC Weighted noOptions drawZero))
       = {||}"
proof -
  have ne: "rosterABC \<noteq> []" by (simp add: rosterABC_def)
  have flag: "avoidImmediateRepeat engineAfterA = True" by code_simp
  show ?thesis
    using ne flag
      C10_flag_follows_options_on_nonempty_roster
        [OF ne, of engineAfterA Weighted noOptions drawZero]
    by (simp add: noOptions_def)
qed

subsection \<open>A group count below 1\<close>

text \<open>
  C9, as stated: with the group policy and a groupCount below 1 the engine clamps the
  option to 1 and still returns a member of a non-empty roster. With \<^verbatim>\<open>{groupCount: -1}\<close>
  the call on [A, B, C] returns none.
\<close>

theorem C9_negative_group_count_returns_none:
  "rosterABC \<noteq> [] \<and> opt_groupCount negativeGroupCount = Some (- 1)
   \<and> fst (selectStudent (constructor None) rosterABC Group negativeGroupCount drawZero) = Inr None"
  by code_simp

text \<open>
  C9, amended: with the group policy, a groupCount of 0 is replaced by the default 3 (not
  by 1): the call is the call made without the option. A negative groupCount is passed on
  as it is: no group is formed and the call returns none, without throwing, for every
  roster, engine and draw.
\<close>

theorem C9_group_count_below_one:
  "(opt_groupCount opts = Some 0 \<longrightarrow>
      groupCountOption opts = 3
      \<and> selectStudent st students Group opts d =
          selectStudent st students Group (opts\<lparr>opt_groupCount := None\<rparr>) d)
   \<and> (\<forall>g. opt_groupCount opts = Some g \<and> g < 0 \<longrightarrow>
         groupCountOption opts = g
         \<and> fst (selectStudent st students Group opts d) = Inr None)"
proof (intro conjI impI allI)
  assume "opt_groupCount opts = Some 0"
  then show "groupCountOption opts = 3"
    by (simp add: groupCountOption_def)
next
  assume z: "opt_groupCount opts = Some 0"
  have r: "runAlgorithm s av Group opts d = (Inr (groupRandom s av 3 d), s)"
    "runAlgorithm s av Group (opts\<lparr>opt_groupCount := None\<rparr>) d = (Inr (groupRandom s av 3 d), s)"
    for s av
    using z by (simp_all add: runAlgorithm_def groupCountOption_def)
  show "selectStudent st students Group opts d =
          selectStudent st students Group (opts\<lparr>opt_groupCount := None\<rparr>) d"
    by (simp add: selectStudent_def Let_def avoidOption_def r)
next
  fix g assume g: "opt_groupCount opts = Some g \<and> g < 0"
  then show "groupCountOption opts = g"
    by (simp add: groupCountOption_def)
next
  fix g assume g: "opt_groupCount opts = Some g \<and> g < 0"
  then have gc: "groupCountOption opts = g" "g < 0"
    by (simp_all add: groupCountOption_def)
  have run: "runAlgorithm s av Group opts d = (Inr None, s)" for s av
    using gc by (simp add: runAlgorithm_def groupRandom_negative)
  show "fst (selectStudent st students Group opts d) = Inr None"
    by (simp add: selectStudent_def Let_def run)
qed

theorem C9_group_count_below_one_witness:
  "groupCountOption (noOptions\<lparr>opt_groupCount := Some 0\<rparr>) = 3
   \<and> selectStudent (constructor None) rosterABC Group (noOptions\<lparr>opt_groupCount := Some 0\<rparr>) drawZero
      = selectStudent (constructor None) rosterABC Group noOptions drawZero
   \<and> groupCountOption negativeGroupCount = - 1
   \<and> fst (selectStudent (constructor None) rosterABC Group negativeGroupCount drawZero) = Inr None"
  using C9_group_count_below_one [of "noOptions\<lparr>opt_groupCount := Some 0\<rparr>" "constructor None" rosterABC drawZero]
    C9_group_count_below_one [of negativeGroupCount "constructor None" rosterABC drawZero]
  by (simp add: noOptions_def negativeGroupCount_def)

subsection \<open>The fair policy\<close>

text \<open>
  C7, as stated: under fair the selection does not depend on the engine's state and no
  repeat-avoidance filtering is applied. With repeat-avoidance on, the same roster and
  the same draw give A on a fresh engine and B on the engine that has selected A, although
  the draw indexes A in the full roster.
\<close>

theorem C7_fair_pick_depends_on_selected_set:
  "fst (selectStudent (constructor None) rosterABC Fair avoidRepeat drawZero) = Inr (Some studentA)
   \<and> fst (selectStudent engineAfterA rosterABC Fair avoidRepeat drawZero) = Inr (Some studentB)
   \<and> elemAt rosterABC (randomIndex (rnd1 drawZero) (length rosterABC)) = Some studentA"
  by code_simp

text \<open>
  C7, amended: under fair the storage manager's exclusion predicate is never consulted
  (the result is the same with any storage manager or none). For the draw r the call
  returns the entity at index floor(r * m), the product being the double the source
  computes, of a pool of m entities: the entities of the input roster not yet chosen
  when repeat-avoidance is on, fewer than n - 1 of the n roster entities have been chosen
  and one is left, and the full input roster otherwise. So with repeat-avoidance off
  (options.avoidImmediateRepeat absent or false) the call returns the entity at index
  floor(r * n) of the full roster whatever the engine state, and every entity of a
  roster (an array, of fewer than 2^32 elements) is the outcome for some draw; with
  repeat-avoidance on the entity returned has not been chosen while fewer than n - 1
  have been and one is left, and is taken from the full roster once n - 1 or more have
  been chosen.
\<close>

theorem C7_fair_draws_from_pool:
  assumes "students \<noteq> []"
  shows "fst (selectStudent (st\<lparr>storageManager := sm\<rparr>) students Fair opts d)
           = fst (selectStudent st students Fair opts d)
         \<and> (unitInterval (rnd1 d) \<longrightarrow>
              fst (selectStudent st students Fair opts d)
                = Inr (Some (fairPool (avoidOption opts) (selectedStudents st) students
                               ! randomIndex (rnd1 d)
                                   (length (fairPool (avoidOption opts) (selectedStudents st)
                                              students)))))
         \<and> (\<not> avoidOption opts \<and> unitInterval (rnd1 d) \<longrightarrow>
              fst (selectStudent st students Fair opts d)
                = Inr (Some (students ! randomIndex (rnd1 d) (length students))))
         \<and> (\<not> avoidOption opts \<and> length students < 2 ^ 32 \<longrightarrow>
              (\<forall>i < length students. \<exists>d'. unitInterval (rnd1 d')
                 \<and> fst (selectStudent st students Fair opts d') = Inr (Some (students ! i))))
         \<and> (avoidOption opts \<and> unitInterval (rnd1 d)
              \<and> int (fcard (selectedStudents st)) < int (length students) - 1
              \<and> (\<exists>s \<in> set students. student_id s |\<notin>| selectedStudents st) \<longrightarrow>
              (\<exists>s \<in> set students. fst (selectStudent st students Fair opts d) = Inr (Some s)
                 \<and> student_id s |\<notin>| selectedStudents st))
         \<and> (avoidOption opts \<and> unitInterval (rnd1 d)
              \<and> int (length students) - 1 \<le> int (fcard (selectedStudents st)) \<longrightarrow>
              fst (selectStudent st students Fair opts d)
                = Inr (Some (students ! randomIndex (rnd1 d) (length students))))"
proof -
  let ?pool = "fairPool (avoidOption opts) (selectedStudents st) students"
  let ?un = "filter (\<lambda>s. student_id s |\<notin>| selectedStudents st) students"
  have run: "fst (selectStudent s students Fair opts e)
               = Inr (fairRandom (setAvoidImmediateRepeat (avoidOption opts) s) students (rnd1 e))"
    for s e
    using assms
    by (simp add: selectStudent_def Let_def availableStudentsOf_def runAlgorithm_def
          split: option.splits)
  have indep: "fairRandom (setAvoidImmediateRepeat b (st\<lparr>storageManager := sm\<rparr>)) students r
                 = fairRandom (setAvoidImmediateRepeat b st) students r" for b r
    by (simp add: fairRandom_def fewerThanAllButOne_def setAvoidImmediateRepeat_def Let_def)
  have pool_eq: "fairPool (avoidImmediateRepeat (setAvoidImmediateRepeat (avoidOption opts) st))
                   (selectedStudents (setAvoidImmediateRepeat (avoidOption opts) st)) students
                 = ?pool"
    by (simp add: fairPool_def)
  have pool: "fst (selectStudent st students Fair opts e)
                = Inr (Some (?pool ! randomIndex (rnd1 e) (length ?pool)))"
    if "unitInterval (rnd1 e)" for e
    using fairRandom_pool [OF assms that, of "setAvoidImmediateRepeat (avoidOption opts) st"]
    unfolding pool_eq by (simp add: run)
  have off: "fst (selectStudent st students Fair opts e)
               = Inr (Some (students ! randomIndex (rnd1 e) (length students)))"
    if "\<not> avoidOption opts" and "unitInterval (rnd1 e)" for e
    using pool [OF that(2)] that(1) by (simp add: fairPool_def)
  have every: "\<exists>d'. unitInterval (rnd1 d')
                 \<and> fst (selectStudent st students Fair opts d') = Inr (Some (students ! i))"
    if "\<not> avoidOption opts" and "length students < 2 ^ 32" and "i < length students" for i
  proof -
    have "(2::nat) ^ 32 \<le> 2 ^ 51"
      by (rule power_increasing) simp_all
    then have "length students \<le> 2 ^ 51"
      using that(2) by linarith
    from randomIndex_reachable [OF that(3) this]
    obtain r where r: "unitInterval r" "randomIndex r (length students) = i"
      by blast
    let ?d = "d\<lparr>rnd1 := r\<rparr>"
    have "unitInterval (rnd1 ?d)" and "randomIndex (rnd1 ?d) (length students) = i"
      using r by simp_all
    then show ?thesis
      using off [OF that(1), of ?d] by metis
  qed
  have fresh: "\<exists>s \<in> set students. fst (selectStudent st students Fair opts d) = Inr (Some s)
                 \<and> student_id s |\<notin>| selectedStudents st"
    if "avoidOption opts" and "unitInterval (rnd1 d)"
      and "int (fcard (selectedStudents st)) < int (length students) - 1"
      and "\<exists>s \<in> set students. student_id s |\<notin>| selectedStudents st"
  proof -
    have ne: "?un \<noteq> []"
      using that(4) by (simp add: filter_empty_conv)
    then have p: "?pool = ?un"
      using that(1,3) by (simp add: fairPool_def)
    have "?un ! randomIndex (rnd1 d) (length ?un) \<in> set ?un"
      using elemAt_randomIndex(2) [OF that(2) ne] .
    then show ?thesis
      using pool [OF that(2)] unfolding p by auto
  qed
  have full: "fst (selectStudent st students Fair opts d)
                = Inr (Some (students ! randomIndex (rnd1 d) (length students)))"
    if "unitInterval (rnd1 d)"
      and "int (length students) - 1 \<le> int (fcard (selectedStudents st))"
    using pool [OF that(1)] that(2) by (simp add: fairPool_def)
  have same: "fst (selectStudent (st\<lparr>storageManager := sm\<rparr>) students Fair opts d)
                = fst (selectStudent st students Fair opts d)"
    by (simp add: run indep)
  show ?thesis
    using same pool off every fresh full by blast
qed

theorem C7_fair_draws_from_pool_witness:
  "rosterABC \<noteq> [] \<and> avoidOption noOptions = False \<and> avoidOption avoidRepeat = True
   \<and> unitInterval (rnd1 drawHigh) \<and> unitInterval (rnd1 drawZero) \<and> length rosterABC < 2 ^ 32
   \<and> fst (selectStudent (engineAfterA\<lparr>storageManager := Some excludeAll\<rparr>) rosterABC Fair noOptions drawHigh)
      = fst (selectStudent engineAfterA rosterABC Fair noOptions drawHigh)
   \<and> fst (selectStudent engineAfterA rosterABC Fair noOptions drawHigh) = Inr (Some studentC)
   \<and> (\<exists>d'. unitInterval (rnd1 d')
         \<and> fst (selectStudent engineAfterA rosterABC Fair noOptions d') = Inr (Some studentA))
   \<and> selectedStudents engineAfterA = {|1|}
   \<and> fairPool (avoidOption avoidRepeat) (selectedStudents engineAfterA) rosterABC
       = [studentB, studentC]
   \<and> fst (selectStudent engineAfterA rosterABC Fair avoidRepeat drawZero) = Inr (Some studentB)
   \<and> selectedStudents engineAfterAB = {|1, 2|}
   \<and> fst (selectStudent engineAfterAB rosterABC Fair avoidRepeat drawZero) = Inr (Some studentA)"
proof -
  have ne: "rosterABC \<noteq> []" by (simp add: rosterABC_def)
  have off: "avoidOption noOptions = False" by (simp add: avoidOption_def noOptions_def)
  have on: "avoidOption avoidRepeat = True" by (simp add: avoidOption_def avoidRepeat_def)
  have u: "unitInterval (rnd1 drawHigh)" by code_simp
  have u0: "unitInterval (rnd1 drawZero)" by (simp add: drawZero_def)
  have idx: "rosterABC ! randomIndex (rnd1 drawHigh) (length rosterABC) = studentC"
    by code_simp
  have len: "0 < length rosterABC" "length rosterABC < 2 ^ 32" "rosterABC ! 0 = studentA"
    by (simp_all add: rosterABC_def)
  have setA: "selectedStudents engineAfterA = {|1|}" by code_simp
  have setAB: "selectedStudents engineAfterAB = {|1, 2|}" by code_simp
  have poolA: "fairPool (avoidOption avoidRepeat) (selectedStudents engineAfterA) rosterABC
                 = [studentB, studentC]"
    by code_simp
  have idx0: "randomIndex (rnd1 drawZero) (length [studentB, studentC]) = 0"
    "randomIndex (rnd1 drawZero) (length rosterABC) = 0"
    by (simp_all add: randomIndex_def drawZero_def)
  have cardAB: "int (length rosterABC) - 1 \<le> int (fcard (selectedStudents engineAfterAB))"
    by code_simp
  note plain = C7_fair_draws_from_pool [OF ne, where st = engineAfterA and sm = "Some excludeAll"
        and opts = noOptions and d = drawHigh]
  note avoiding = C7_fair_draws_from_pool [OF ne, where st = engineAfterA and sm = None
        and opts = avoidRepeat and d = drawZero]
  note cleared = C7_fair_draws_from_pool [OF ne, where st = engineAfterAB and sm = None
        and opts = avoidRepeat and d = drawZero]
  have "\<forall>i < length rosterABC. \<exists>d'. unitInterval (rnd1 d')
          \<and> fst (selectStudent engineAfterA rosterABC Fair noOptions d')
              = Inr (Some (rosterABC ! i))"
    using plain off len(2) by simp
  then have "\<exists>d'. unitInterval (rnd1 d')
          \<and> fst (selectStudent engineAfterA rosterABC Fair noOptions d')
              = Inr (Some (rosterABC ! 0))"
    using len(1) by blast
  then have exA: "\<exists>d'. unitInterval (rnd1 d')
          \<and> fst (selectStudent engineAfterA rosterABC Fair noOptions d') = Inr (Some studentA)"
    by (simp add: len(3))
  have indep: "fst (selectStudent (engineAfterA\<lparr>storageManager := Some excludeAll\<rparr>) rosterABC Fair
                      noOptions drawHigh)
                 = fst (selectStudent engineAfterA rosterABC Fair noOptions drawHigh)"
    using plain by blast
  have "fst (selectStudent engineAfterA rosterABC Fair noOptions drawHigh)
          = Inr (Some (rosterABC ! randomIndex (rnd1 drawHigh) (length rosterABC)))"
    using plain off u by blast
  then have high: "fst (selectStudent engineAfterA rosterABC Fair noOptions drawHigh)
                     = Inr (Some studentC)"
    unfolding idx .
  have "fst (selectStudent engineAfterA rosterABC Fair avoidRepeat drawZero)
          = Inr (Some (fairPool (avoidOption avoidRepeat) (selectedStudents engineAfterA) rosterABC
                         ! randomIndex (rnd1 drawZero)
                             (length (fairPool (avoidOption avoidRepeat)
                                        (selectedStudents engineAfterA) rosterABC))))"
    using avoiding u0 by blast
  then have second: "fst (selectStudent engineAfterA rosterABC Fair avoidRepeat drawZero)
                       = Inr (Some studentB)"
    unfolding poolA idx0 by simp
  have "fst (selectStudent engineAfterAB rosterABC Fair avoidRepeat drawZero)
          = Inr (Some (rosterABC ! randomIndex (rnd1 drawZero) (length rosterABC)))"
    using cleared on u0 cardAB by blast
  then have third: "fst (selectStudent engineAfterAB rosterABC Fair avoidRepeat drawZero)
                      = Inr (Some studentA)"
    unfolding idx0 by (simp add: len(3))
  show ?thesis
    using ne off on u u0 len(2) indep high exA setA poolA second setAB third by blast
qed

subsection \<open>The leastCalled policy\<close>

text \<open>
  C6, as stated: under leastCalled the entity returned has the minimum callCount among the
  eligible entities (those the exclusion predicate leaves), and on the roster of the
  scenario the entity with id 2 is returned. With repeat-avoidance on, the second call on
  that roster returns C, whose callCount is 2, while B with callCount 0 is still eligible.
\<close>

theorem C6_least_called_returns_more_than_minimum:
  "fst (selectStudent (constructor None) scenarioRoster LeastCalled avoidRepeat drawZero)
     = Inr (Some scenarioB)
   \<and> availableStudentsOf engineAfterScenarioB scenarioRoster LeastCalled = scenarioRoster
   \<and> fst (selectStudent engineAfterScenarioB scenarioRoster LeastCalled avoidRepeat drawZero)
     = Inr (Some scenarioC)
   \<and> callCountOf scenarioC = 2
   \<and> Min (set (map callCountOf scenarioRoster)) = 0"
  by code_simp

text \<open>
  C6, amended: under leastCalled, for every draw, the entity returned is one of the
  candidates and has the minimum callCount among them, where the candidates are the
  eligible entities not yet chosen in the current cycle when repeat-avoidance is on and
  there is such an entity, and all eligible entities otherwise. On the roster of the
  scenario, without a storage manager, the entity with id 2 is returned for every draw
  unless repeat-avoidance is on and id 2 has been chosen in the current cycle.
\<close>

theorem C6_least_called_minimum_among_candidates:
  assumes "unitInterval (rnd1 d)"
  shows "(availableStudentsOf st students LeastCalled \<noteq> [] \<longrightarrow>
          (\<exists>s. fst (selectStudent st students LeastCalled opts d) = Inr (Some s)
             \<and> s \<in> set (leastCalledCandidates (avoidOption opts) (selectedStudents st)
                            (availableStudentsOf st students LeastCalled))
             \<and> callCountOf s =
                 Min (callCountOf `
                   set (leastCalledCandidates (avoidOption opts) (selectedStudents st)
                          (availableStudentsOf st students LeastCalled)))))
         \<and> (storageManager st = None
              \<and> \<not> (avoidOption opts \<and> student_id scenarioB |\<in>| selectedStudents st) \<longrightarrow>
            fst (selectStudent st scenarioRoster LeastCalled opts d) = Inr (Some scenarioB))"
proof (intro conjI impI)
  assume "availableStudentsOf st students LeastCalled \<noteq> []"
  from selectStudent_leastCalled [OF this assms, of opts]
  show "\<exists>s. fst (selectStudent st students LeastCalled opts d) = Inr (Some s)
             \<and> s \<in> set (leastCalledCandidates (avoidOption opts) (selectedStudents st)
                            (availableStudentsOf st students LeastCalled))
             \<and> callCountOf s =
                 Min (callCountOf `
                   set (leastCalledCandidates (avoidOption opts) (selectedStudents st)
                          (availableStudentsOf st students LeastCalled)))"
    by auto
next
  assume a: "storageManager st = None
              \<and> \<not> (avoidOption opts \<and> student_id scenarioB |\<in>| selectedStudents st)"
  let ?c = "leastCalledCandidates (avoidOption opts) (selectedStudents st) scenarioRoster"
  have av: "availableStudentsOf st scenarioRoster LeastCalled = scenarioRoster"
    using a by (simp add: available_no_storage)
  have ne: "availableStudentsOf st scenarioRoster LeastCalled \<noteq> []"
    unfolding av by (simp add: scenarioRoster_def)
  obtain s where s: "fst (selectStudent st scenarioRoster LeastCalled opts d) = Inr (Some s)"
    "s \<in> set ?c" "callCountOf s = Min (callCountOf ` set ?c)"
    using selectStudent_leastCalled [OF ne assms, of opts] unfolding av by auto
  have sub: "set ?c \<subseteq> set scenarioRoster"
    by (auto simp add: leastCalledCandidates_def)
  have b: "scenarioB \<in> set ?c"
    using a by (auto simp add: leastCalledCandidates_def scenarioRoster_def filter_empty_conv)
  have "callCountOf s \<le> callCountOf scenarioB"
    using s(3) b by simp
  then have "callCountOf s \<le> 0"
    by (simp add: callCountOf_def scenarioB_def)
  moreover have "s \<in> set scenarioRoster"
    using s(2) sub by blast
  ultimately have "s = scenarioB"
    by (auto simp add: scenarioRoster_def callCountOf_def scenarioA_def scenarioC_def)
  then show "fst (selectStudent st scenarioRoster LeastCalled opts d) = Inr (Some scenarioB)"
    using s(1) by simp
qed

theorem C6_least_called_minimum_among_candidates_witness:
  "unitInterval (rnd1 drawHigh)
   \<and> availableStudentsOf engineAfterScenarioB scenarioRoster LeastCalled = scenarioRoster
   \<and> leastCalledCandidates (avoidOption avoidRepeat) (selectedStudents engineAfterScenarioB)
        scenarioRoster = [scenarioA, scenarioC]
   \<and> fst (selectStudent engineAfterScenarioB scenarioRoster LeastCalled avoidRepeat drawHigh)
       = Inr (Some scenarioC)
   \<and> storageManager (constructor None) = None
   \<and> fst (selectStudent (constructor None) scenarioRoster LeastCalled noOptions drawHigh)
       = Inr (Some scenarioB)"
proof -
  have u: "unitInterval (rnd1 drawHigh)" by code_simp
  have av: "availableStudentsOf engineAfterScenarioB scenarioRoster LeastCalled = scenarioRoster"
    by code_simp
  have c: "leastCalledCandidates (avoidOption avoidRepeat) (selectedStudents engineAfterScenarioB)
        scenarioRoster = [scenarioA, scenarioC]"
    by code_simp
  have m: "Min (callCountOf ` set [scenarioA, scenarioC]) = callCountOf scenarioC"
    "callCountOf scenarioA \<noteq> callCountOf scenarioC"
    by (simp_all add: callCountOf_def scenarioA_def scenarioC_def)
  have s0: "storageManager (constructor None) = None"
    "avoidOption noOptions = False"
    by (simp_all add: constructor_def avoidOption_def noOptions_def)
  have ne: "scenarioRoster \<noteq> []" by (simp add: scenarioRoster_def)
  note t1 = C6_least_called_minimum_among_candidates [OF u, where st = engineAfterScenarioB and students = scenarioRoster
      and opts = avoidRepeat]
  note t2 = C6_least_called_minimum_among_candidates [OF u, where st = "constructor None" and students = scenarioRoster
      and opts = noOptions]
  have r1: "fst (selectStudent engineAfterScenarioB scenarioRoster LeastCalled avoidRepeat drawHigh)
       = Inr (Some scenarioC)"
    using t1 av c m ne by auto
  have r2: "fst (selectStudent (constructor None) scenarioRoster LeastCalled noOptions drawHigh)
       = Inr (Some scenarioB)"
    using t2 s0 by simp
  show ?thesis
    using u av c r1 r2 s0 by simp
qed

subsection \<open>The weighted policy\<close>

text \<open>
  C4, as stated: when repeat-avoidance is on, every entity not yet chosen in the cycle has
  its weight doubled. After A and B have been chosen from [A, B, C] with repeat-avoidance
  on, C is the one entity not yet chosen and its weight is 1, as the others'; with the
  draw 0.625 the call returns B, where the walk over the weights 1, 1, 2 returns C.
\<close>

theorem C4_unchosen_weight_not_doubled_when_one_is_left:
  "fst (selectStudent (constructor None) rosterABC Weighted avoidRepeat drawZero)
     = Inr (Some studentA)
   \<and> fst (selectStudent
            (snd (selectStudent (constructor None) rosterABC Weighted avoidRepeat drawZero))
            rosterABC Weighted avoidRepeat drawHalf)
     = Inr (Some studentB)
   \<and> avoidImmediateRepeat engineAfterAB = True
   \<and> selectedStudents engineAfterAB = {|1, 2|}
   \<and> student_id studentC = 3
   \<and> studentsWithWeights engineAfterAB rosterABC
     = [(studentA, 1), (studentB, 1), (studentC, 1)]
   \<and> unitInterval (rnd1 drawFiveEighths)
   \<and> fst (selectStudent engineAfterAB rosterABC Weighted avoidRepeat drawFiveEighths)
     = Inr (Some studentB)
   \<and> selectByWeight [(studentA, 1), (studentB, 1), (studentC, 2)] (rnd1 drawFiveEighths)
     = Inr (Some studentC)"
  by code_simp

text \<open>
  C4, amended: under the weighted policy on at least two eligible entities, each entity's
  weight is 1 + (maximum callCount of the eligible entities - its callCount), doubled for
  the entities not yet chosen exactly when repeat-avoidance is on and fewer than n - 1
  entities have been chosen; the total weight is positive. For the draw r the walk starts
  from the double x that the source computes as r * total and, the total being below
  2^53, the call returns the first entity, in roster order, at which x is at most the
  sum of the weights up to and including it. \<^verbatim>\<open>selectByWeight\<close> itself returns the entity
  at index floor(r * n), of the double product, when the total weight is at most 0.
\<close>

theorem C4_weighted_draw:
  assumes "unitInterval (rnd1 d)"
  shows "(1 < length (availableStudentsOf st students Weighted) \<longrightarrow>
          0 < sum_list (map (policyWeight (avoidOption opts) (selectedStudents st)
                               (availableStudentsOf st students Weighted))
                          (availableStudentsOf st students Weighted))
          \<and> (sum_list (map (policyWeight (avoidOption opts) (selectedStudents st)
                               (availableStudentsOf st students Weighted))
                          (availableStudentsOf st students Weighted)) < 2 ^ 53 \<longrightarrow>
             (\<exists>k<length (availableStudentsOf st students Weighted).
                fst (selectStudent st students Weighted opts d)
                  = Inr (Some (availableStudentsOf st students Weighted ! k))
                \<and> toDouble (rnd1 d * of_int (sum_list (map (policyWeight (avoidOption opts) (selectedStudents st)
                               (availableStudentsOf st students Weighted))
                          (availableStudentsOf st students Weighted))))
                    \<le> of_int (sum_list (map (policyWeight (avoidOption opts) (selectedStudents st)
                               (availableStudentsOf st students Weighted))
                          (take (Suc k) (availableStudentsOf st students Weighted))))
                \<and> (\<forall>j<k. of_int (sum_list (map (policyWeight (avoidOption opts) (selectedStudents st)
                               (availableStudentsOf st students Weighted))
                          (take (Suc j) (availableStudentsOf st students Weighted))))
                     < toDouble (rnd1 d * of_int (sum_list (map (policyWeight (avoidOption opts) (selectedStudents st)
                               (availableStudentsOf st students Weighted))
                          (availableStudentsOf st students Weighted))))))))
         \<and> (items \<noteq> [] \<and> sum_list (map snd items) \<le> 0 \<longrightarrow>
              selectByWeight items (rnd1 d)
                = Inr (Some (fst (items ! randomIndex (rnd1 d) (length items)))))"
proof (intro conjI impI)
  let ?st1 = "setAvoidImmediateRepeat (avoidOption opts) st"
  let ?av = "availableStudentsOf st students Weighted"
  let ?w = "policyWeight (avoidOption opts) (selectedStudents st) ?av"
  let ?items = "map (\<lambda>s. (s, ?w s)) ?av"
  assume len: "1 < length ?av"
  have "int (length (map ?w ?av)) \<le> sum_list (map ?w ?av)"
    by (intro sum_list_ge_length) (auto simp add: policyWeight_positive)
  then show "0 < sum_list (map ?w ?av)"
    using len by simp
next
  let ?st1 = "setAvoidImmediateRepeat (avoidOption opts) st"
  let ?av = "availableStudentsOf st students Weighted"
  let ?w = "policyWeight (avoidOption opts) (selectedStudents st) ?av"
  let ?items = "map (\<lambda>s. (s, ?w s)) ?av"
  assume len: "1 < length ?av" and bound: "sum_list (map ?w ?av) < 2 ^ 53"
  then have ne: "?av \<noteq> []" by auto
  have w_eq: "policyWeight (avoidImmediateRepeat ?st1) (selectedStudents ?st1) ?av = ?w"
    by (auto simp add: policyWeight_def fun_eq_iff)
  have items: "studentsWithWeights ?st1 ?av = ?items"
    unfolding studentsWithWeights_policy w_eq by (rule refl)
  have snd_items: "map snd (take n ?items) = map ?w (take n ?av)" for n
    by (simp add: take_map comp_def)
  have snd_all: "map snd ?items = map ?w ?av"
    by (simp add: comp_def)
  have "int (length (map ?w ?av)) \<le> sum_list (map ?w ?av)"
    by (intro sum_list_ge_length) (auto simp add: policyWeight_positive)
  then have pos: "0 < sum_list (map ?w ?av)"
    using len by simp
  have items_ne: "?items \<noteq> []" using ne by simp
  have pos': "0 < sum_list (map snd ?items)"
    unfolding snd_all using pos .
  have bound': "sum_list (map snd ?items) < 2 ^ 53"
    unfolding snd_all using bound .
  have "0 \<le> ?w s" if "s \<in> set ?av" for s
    using policyWeight_positive [OF that, of "avoidOption opts" "selectedStudents st"] by linarith
  then have nonneg: "\<forall>w \<in> set (map snd ?items). 0 \<le> w"
    unfolding snd_all by auto
  from selectByWeight_first [OF items_ne pos' assms bound' nonneg]
  obtain k where k: "k < length ?av"
    "selectByWeight ?items (rnd1 d) = Inr (Some (?av ! k))"
    "toDouble (rnd1 d * of_int (sum_list (map ?w ?av)))
       \<le> of_int (sum_list (map ?w (take (Suc k) ?av)))"
    "\<forall>j<k. of_int (sum_list (map ?w (take (Suc j) ?av)))
       < toDouble (rnd1 d * of_int (sum_list (map ?w ?av)))"
    unfolding snd_items snd_all by auto
  have "weightedRandom ?st1 ?av (rnd1 d) = Inr (Some (?av ! k))"
    using len ne k(2) by (simp add: weightedRandom_def items)
  then have run: "runAlgorithm ?st1 ?av Weighted opts d = (Inr (Some (?av ! k)), ?st1)"
    by (simp add: runAlgorithm_def)
  have "fst (selectStudent st students Weighted opts d) = Inr (Some (?av ! k))"
    using selectStudent_run [OF ne run] by simp
  then show "\<exists>k<length ?av.
                fst (selectStudent st students Weighted opts d) = Inr (Some (?av ! k))
                \<and> toDouble (rnd1 d * of_int (sum_list (map ?w ?av)))
                    \<le> of_int (sum_list (map ?w (take (Suc k) ?av)))
                \<and> (\<forall>j<k. of_int (sum_list (map ?w (take (Suc j) ?av)))
                     < toDouble (rnd1 d * of_int (sum_list (map ?w ?av))))"
    using k(1,3,4) by blast
next
  assume "items \<noteq> [] \<and> sum_list (map snd items) \<le> 0"
  then show "selectByWeight items (rnd1 d)
                = Inr (Some (fst (items ! randomIndex (rnd1 d) (length items))))"
    using selectByWeight_fallback [OF _ _ assms] by blast
qed

theorem C4_weighted_draw_witness:
  "unitInterval (rnd1 drawHalf)
   \<and> availableStudentsOf engineAfterWeightedA rosterABC Weighted = rosterABC
   \<and> map (policyWeight (avoidOption avoidRepeat) (selectedStudents engineAfterWeightedA)
             rosterABC) rosterABC = [1, 2, 2]
   \<and> sum_list [1, 2, 2] < (2::int) ^ 53
   \<and> (\<exists>k<length rosterABC.
         fst (selectStudent engineAfterWeightedA rosterABC Weighted avoidRepeat drawHalf)
           = Inr (Some (rosterABC ! k))
         \<and> toDouble (rnd1 drawHalf * of_int (sum_list [1, 2, 2]))
             \<le> of_int (sum_list (take (Suc k) [1, 2, 2]))
         \<and> (\<forall>j<k. of_int (sum_list (take (Suc j) [1, 2, 2]))
                < toDouble (rnd1 drawHalf * of_int (sum_list [1, 2, 2]))))
   \<and> fst (selectStudent engineAfterWeightedA rosterABC Weighted avoidRepeat drawHalf)
       = Inr (Some studentB)
   \<and> selectByWeight [(studentA, 0)] (rnd1 drawHalf) = Inr (Some studentA)"
proof -
  have u: "unitInterval (rnd1 drawHalf)"
    by code_simp
  have av: "availableStudentsOf engineAfterWeightedA rosterABC Weighted = rosterABC"
    by code_simp
  have w: "map (policyWeight (avoidOption avoidRepeat) (selectedStudents engineAfterWeightedA)
             rosterABC) rosterABC = [1, 2, 2]"
    by code_simp
  have len: "1 < length rosterABC" by (simp add: rosterABC_def)
  have bound: "sum_list [1, 2, 2] < (2::int) ^ 53" by simp
  have r: "fst (selectStudent engineAfterWeightedA rosterABC Weighted avoidRepeat drawHalf)
       = Inr (Some studentB)"
    by code_simp
  have idx: "randomIndex (rnd1 drawHalf) (length [(studentA, 0::int)]) = 0"
    by code_simp
  note amended = C4_weighted_draw [OF u, where st = engineAfterWeightedA and students = rosterABC
      and opts = avoidRepeat and items = "[(studentA, 0)]"]
  have fallback: "selectByWeight [(studentA, 0)] (rnd1 drawHalf) = Inr (Some studentA)"
    using amended idx by simp
  have walk: "\<exists>k<length rosterABC.
         fst (selectStudent engineAfterWeightedA rosterABC Weighted avoidRepeat drawHalf)
           = Inr (Some (rosterABC ! k))
         \<and> toDouble (rnd1 drawHalf * of_int (sum_list [1, 2, 2]))
             \<le> of_int (sum_list (take (Suc k) [1, 2, 2]))
         \<and> (\<forall>j<k. of_int (sum_list (take (Suc j) [1, 2, 2]))
                < toDouble (rnd1 drawHalf * of_int (sum_list [1, 2, 2])))"
    using amended len bound unfolding av take_map [symmetric] w by blast
  show ?thesis
    using u av w bound walk r fallback by blast
qed

subsection \<open>Repeat-avoidance over a cycle\<close>

text \<open>
  C3, as stated: with repeat-avoidance on and a fixed roster, under every policy no entity
  is selected a second time before every other entity has been selected once. Under the
  weighted policy the entities already chosen keep their weight and only the others'
  weights are doubled: on [A, B, C], two calls whose draws read 0 both return A.
\<close>

theorem C3_weighted_selects_the_same_entity_twice:
  "fst (selectStudent (constructor None) rosterABC Weighted avoidRepeat drawZero)
     = Inr (Some studentA)
   \<and> avoidImmediateRepeat engineAfterWeightedA = True
   \<and> selectedStudents engineAfterWeightedA = {|1|}
   \<and> fst (selectStudent engineAfterWeightedA rosterABC Weighted avoidRepeat drawZero)
     = Inr (Some studentA)
   \<and> fst (selectRepeatedly 2 (constructor None) rosterABC Weighted avoidRepeat drawZeroEachCall)
     = [Inr (Some studentA), Inr (Some studentA)]"
  by code_simp

text \<open>
  C3, amended: with repeat-avoidance on, for every policy, a call that returns an entity
  leaves the set of selected ids with fewer elements than the eligible roster; for every
  policy but roundRobin that set is the previous set with the id of the entity added,
  emptied when it reaches the size of the eligible roster. Under the leastCalled policy,
  on an eligible roster of n entities with distinct ids and starting from an empty set, n
  consecutive calls select every eligible entity exactly once and leave the set empty;
  under the roundRobin policy, on two or more eligible entities with distinct ids and
  starting from an empty set, the call number i (counted from 0) returns the entity at
  position i mod n. Under these two policies no entity is selected a second time before
  every other entity has been selected once.
\<close>

theorem C3_selected_set_and_least_called_cycle:
  assumes "avoidOption opts"
  shows "(fst (selectStudent st students algorithm opts d) = Inr (Some s) \<longrightarrow>
            fcard (selectedStudents (snd (selectStudent st students algorithm opts d)))
              < length (availableStudentsOf st students algorithm)
            \<and> (algorithm \<noteq> RoundRobin \<longrightarrow>
                 selectedStudents (snd (selectStudent st students algorithm opts d)) =
                   (if length (availableStudentsOf st students algorithm)
                         \<le> fcard (finsert (student_id s) (selectedStudents st))
                    then {||} else finsert (student_id s) (selectedStudents st))))
         \<and> (selectedStudents st = {||}
              \<and> availableStudentsOf st students LeastCalled \<noteq> []
              \<and> distinct (map student_id (availableStudentsOf st students LeastCalled))
              \<and> (\<forall>i. unitInterval (rnd1 (ds i))) \<longrightarrow>
            (\<exists>chosen.
               fst (selectRepeatedly (length (availableStudentsOf st students LeastCalled))
                      st students LeastCalled opts ds)
                 = map (\<lambda>s. Inr (Some s)) chosen
               \<and> distinct (map student_id chosen)
               \<and> set chosen = set (availableStudentsOf st students LeastCalled)
               \<and> selectedStudents
                   (snd (selectRepeatedly (length (availableStudentsOf st students LeastCalled))
                           st students LeastCalled opts ds)) = {||}))
         \<and> (selectedStudents st = {||}
              \<and> 1 < length (availableStudentsOf st students RoundRobin)
              \<and> distinct (map student_id (availableStudentsOf st students RoundRobin)) \<longrightarrow>
            fst (selectRepeatedly k st students RoundRobin opts ds)
              = map (\<lambda>i. Inr (Some (availableStudentsOf st students RoundRobin
                                       ! (i mod length (availableStudentsOf st students RoundRobin)))))
                  [0..<k])"
  using selectStudent_selected_set [OF assms, of st students algorithm d s]
    leastCalled_cycle [OF assms, of st students ds]
    roundRobin_cycle_prefix [OF assms, of st students k ds]
  by blast

theorem C3_selected_set_and_least_called_cycle_witness:
  "avoidOption avoidRepeat
   \<and> fst (selectStudent (constructor None) rosterABC Weighted avoidRepeat drawZero)
       = Inr (Some studentA)
   \<and> fcard (selectedStudents engineAfterWeightedA) < length rosterABC
   \<and> selectedStudents engineAfterWeightedA = {|student_id studentA|}
   \<and> selectedStudents (constructor None) = {||}
   \<and> availableStudentsOf (constructor None) scenarioRoster LeastCalled = scenarioRoster
   \<and> distinct (map student_id scenarioRoster)
   \<and> (\<forall>i. unitInterval (rnd1 (drawZeroEachCall i)))
   \<and> (\<exists>chosen.
         fst (selectRepeatedly 3 (constructor None) scenarioRoster LeastCalled avoidRepeat
                drawZeroEachCall) = map (\<lambda>s. Inr (Some s)) chosen
         \<and> distinct (map student_id chosen)
         \<and> set chosen = set scenarioRoster)
   \<and> fst (selectRepeatedly 3 (constructor None) scenarioRoster LeastCalled avoidRepeat
            drawZeroEachCall)
       = [Inr (Some scenarioB), Inr (Some scenarioC), Inr (Some scenarioA)]
   \<and> selectedStudents
        (snd (selectRepeatedly 3 (constructor None) scenarioRoster LeastCalled avoidRepeat
                drawZeroEachCall)) = {||}
   \<and> fst (selectRepeatedly 4 (constructor None) scenarioRoster RoundRobin avoidRepeat
            drawZeroEachCall)
       = [Inr (Some scenarioA), Inr (Some scenarioB), Inr (Some scenarioC),
          Inr (Some scenarioA)]"
proof -
  have avoid: "avoidOption avoidRepeat"
    by (simp add: avoidOption_def avoidRepeat_def)
  have first: "fst (selectStudent (constructor None) rosterABC Weighted avoidRepeat drawZero)
       = Inr (Some studentA)"
    by code_simp
  have av1: "availableStudentsOf (constructor None) rosterABC Weighted = rosterABC"
    by (simp add: available_no_storage constructor_def)
  have empty: "selectedStudents (constructor None) = {||}"
    by (simp add: constructor_def)
  have card1: "fcard (finsert (student_id studentA) {||}) = 1" "length rosterABC = 3"
    by (simp_all add: rosterABC_def fcard_finsert_if)
  have av2: "availableStudentsOf (constructor None) scenarioRoster LeastCalled = scenarioRoster"
    by (simp add: available_no_storage constructor_def)
  have ne: "scenarioRoster \<noteq> []" "length scenarioRoster = 3"
    by (simp_all add: scenarioRoster_def)
  have dist: "distinct (map student_id scenarioRoster)"
    by (simp add: scenarioRoster_def scenarioA_def scenarioB_def scenarioC_def)
  have draws: "\<forall>i. unitInterval (rnd1 (drawZeroEachCall i))"
    by (simp add: drawZeroEachCall_def drawZero_def)
  have order: "fst (selectRepeatedly 3 (constructor None) scenarioRoster LeastCalled avoidRepeat
            drawZeroEachCall)
       = [Inr (Some scenarioB), Inr (Some scenarioC), Inr (Some scenarioA)]"
    by code_simp
  note a = C3_selected_set_and_least_called_cycle [OF avoid, where st = "constructor None" and students = rosterABC
      and algorithm = Weighted and d = drawZero and s = studentA]
  note b = C3_selected_set_and_least_called_cycle [OF avoid, where st = "constructor None" and students = scenarioRoster
      and ds = drawZeroEachCall]
  have a1: "fcard (selectedStudents engineAfterWeightedA) < length rosterABC"
    using a first unfolding av1 engineAfterWeightedA_def by blast
  have "selectedStudents engineAfterWeightedA =
          (if length rosterABC \<le> fcard (finsert (student_id studentA) {||})
           then {||} else finsert (student_id studentA) {||})"
    using a first unfolding av1 engineAfterWeightedA_def empty by blast
  then have a2: "selectedStudents engineAfterWeightedA = {|student_id studentA|}"
    unfolding card1 by simp
  note a' = conjI [OF a1 a2]
  have b': "(\<exists>chosen.
         fst (selectRepeatedly 3 (constructor None) scenarioRoster LeastCalled avoidRepeat
                drawZeroEachCall) = map (\<lambda>s. Inr (Some s)) chosen
         \<and> distinct (map student_id chosen)
         \<and> set chosen = set scenarioRoster)
      \<and> selectedStudents
        (snd (selectRepeatedly 3 (constructor None) scenarioRoster LeastCalled avoidRepeat
                drawZeroEachCall)) = {||}"
    using b empty dist draws ne unfolding av2 ne(2) by blast
  have av3: "availableStudentsOf (constructor None) scenarioRoster RoundRobin = scenarioRoster"
    by (simp add: available_no_storage constructor_def)
  have elems: "map (\<lambda>i. Inr (Some (scenarioRoster ! (i mod 3)))) [0..<4]
                 = [Inr (Some scenarioA), Inr (Some scenarioB), Inr (Some scenarioC),
                    Inr (Some scenarioA) :: error + student option]"
    by code_simp
  note c = C3_selected_set_and_least_called_cycle [OF avoid, where st = "constructor None" and students = scenarioRoster
      and k = 4 and ds = drawZeroEachCall]
  have "fst (selectRepeatedly 4 (constructor None) scenarioRoster RoundRobin avoidRepeat
               drawZeroEachCall)
          = map (\<lambda>i. Inr (Some (scenarioRoster ! (i mod 3)))) [0..<4]"
    using c empty dist ne unfolding av3 ne(2) by simp
  then have c': "fst (selectRepeatedly 4 (constructor None) scenarioRoster RoundRobin avoidRepeat
               drawZeroEachCall)
       = [Inr (Some scenarioA), Inr (Some scenarioB), Inr (Some scenarioC),
          Inr (Some scenarioA)]"
    unfolding elems .
  show ?thesis
    using avoid first a' empty av2 dist draws b' order c' by blast
qed

section \<open>Further properties\<close>

text \<open>
  Round robin with repeat-avoidance off: whatever the engine has selected before, the
  call returns the first of the students left after the exclusion filter.
\<close>

theorem round_robin_without_repeat_avoidance_returns_first:
  assumes "\<not> avoidOption opts"
    and "availableStudentsOf st students RoundRobin \<noteq> []"
  shows "fst (selectStudent st students RoundRobin opts d)
           = Inr (Some (hd (availableStudentsOf st students RoundRobin)))"
proof -
  let ?st1 = "setAvoidImmediateRepeat (avoidOption opts) st"
  let ?av = "availableStudentsOf st students RoundRobin"
  have "selectedStudents ?st1 = {||}"
    using assms(1) by simp
  then have "runAlgorithm ?st1 ?av RoundRobin opts d = (Inr (Some (hd ?av)), ?st1)"
    using assms(2) by (simp add: runAlgorithm_def roundRobin_off)
  from selectStudent_run [OF assms(2) this] show ?thesis
    by simp
qed

theorem round_robin_without_repeat_avoidance_witness:
  "avoidOption noOptions = False
   \<and> availableStudentsOf engineAfterAB rosterABC RoundRobin = rosterABC
   \<and> lastSelectedStudent engineAfterAB = Some (student_id studentB)
   \<and> fst (selectStudent engineAfterAB rosterABC RoundRobin noOptions drawZero)
       = Inr (Some studentA)"
proof -
  have off: "avoidOption noOptions = False"
    by (simp add: avoidOption_def noOptions_def)
  have av: "availableStudentsOf engineAfterAB rosterABC RoundRobin = rosterABC"
    by code_simp
  have last: "lastSelectedStudent engineAfterAB = Some (student_id studentB)"
    by code_simp
  have hd: "hd rosterABC = studentA" "rosterABC \<noteq> []"
    by (simp_all add: rosterABC_def)
  show ?thesis
    using round_robin_without_repeat_avoidance_returns_first
      [where opts = noOptions and st = engineAfterAB and students = rosterABC and d = drawZero]
      off av last hd
    by simp
qed

text \<open>
  Round robin with repeat-avoidance on: on two or more eligible students with distinct
  ids, starting from an empty set of selected ids, the call number \<open>i\<close> (counted from 0)
  returns the eligible student at position \<open>i mod n\<close>.
\<close>

theorem round_robin_with_repeat_avoidance_cycles:
  assumes "avoidOption opts"
    and "1 < length (availableStudentsOf st students RoundRobin)"
    and "distinct (map student_id (availableStudentsOf st students RoundRobin))"
    and "selectedStudents st = {||}"
  shows "fst (selectRepeatedly k st students RoundRobin opts ds)
           = map (\<lambda>i. Inr (Some (availableStudentsOf st students RoundRobin
                                    ! (i mod length (availableStudentsOf st students RoundRobin)))))
               [0..<k]"
  using roundRobin_cycle_prefix [OF assms] by blast

theorem round_robin_with_repeat_avoidance_cycles_witness:
  "avoidOption avoidRepeat
   \<and> availableStudentsOf (constructor None) rosterABC RoundRobin = rosterABC
   \<and> distinct (map student_id rosterABC)
   \<and> selectedStudents (constructor None) = {||}
   \<and> fst (selectRepeatedly 4 (constructor None) rosterABC RoundRobin avoidRepeat drawZeroEachCall)
       = [Inr (Some studentA), Inr (Some studentB), Inr (Some studentC), Inr (Some studentA)]"
proof -
  have avoid: "avoidOption avoidRepeat"
    by (simp add: avoidOption_def avoidRepeat_def)
  have av: "availableStudentsOf (constructor None) rosterABC RoundRobin = rosterABC"
    by (simp add: available_no_storage constructor_def)
  have len: "1 < length rosterABC" "length rosterABC = 3"
    by (simp_all add: rosterABC_def)
  have dist: "distinct (map student_id rosterABC)"
    by (simp add: rosterABC_def studentA_def studentB_def studentC_def)
  have start: "selectedStudents (constructor None) = {||}"
    by (simp add: constructor_def)
  have elems: "map (\<lambda>i. Inr (Some (rosterABC ! (i mod 3)))) [0..<4]
                 = [Inr (Some studentA), Inr (Some studentB), Inr (Some studentC),
                    Inr (Some studentA) :: error + student option]"
    by code_simp
  have "fst (selectRepeatedly 4 (constructor None) rosterABC RoundRobin avoidRepeat
               drawZeroEachCall)
          = map (\<lambda>i. Inr (Some (rosterABC ! (i mod 3)))) [0..<4]"
    using round_robin_with_repeat_avoidance_cycles
      [where opts = avoidRepeat and st = "constructor None" and students = rosterABC
         and k = 4 and ds = drawZeroEachCall]
      avoid len dist start
    unfolding av len(2) by blast
  then show ?thesis
    using avoid av dist start elems by simp
qed

text \<open>
  Every policy but group returns one of the eligible students, when there is one and the
  draw is in \<open>[0, 1)\<close>: it neither throws nor returns none.
\<close>

theorem every_policy_but_group_returns_a_member:
  assumes "algorithm \<noteq> Group"
    and "availableStudentsOf st students algorithm \<noteq> []"
    and "unitInterval (rnd1 d)"
  shows "\<exists>s \<in> set (availableStudentsOf st students algorithm).
           fst (selectStudent st students algorithm opts d) = Inr (Some s)"
proof -
  let ?st1 = "setAvoidImmediateRepeat (avoidOption opts) st"
  let ?av = "availableStudentsOf st students algorithm"
  have "\<exists>s \<in> set ?av. fst (runAlgorithm ?st1 ?av algorithm opts d) = Inr (Some s)"
  proof (cases algorithm)
    case Fair
    then show ?thesis
      using fairRandom_member [OF assms(2,3), of ?st1] by (auto simp add: runAlgorithm_def)
  next
    case Weighted
    then show ?thesis
      using weightedRandom_member [OF assms(2,3), of ?st1] by (auto simp add: runAlgorithm_def)
  next
    case LeastCalled
    then show ?thesis
      using leastCalledFirst_candidates [OF assms(2,3), of ?st1]
      by (auto simp add: runAlgorithm_def split: if_splits)
  next
    case RoundRobin
    then show ?thesis
      using roundRobin_member [OF assms(2), of ?st1]
      by (auto simp add: runAlgorithm_def split_beta)
  next
    case TimeBalanced
    then show ?thesis
      using timeBalanced_member [OF assms(2,3), of ?st1 "clock d"]
      by (auto simp add: runAlgorithm_def)
  next
    case Group
    then show ?thesis using assms(1) by simp
  next
    case Other
    then show ?thesis
      using fairRandom_member [OF assms(2,3), of ?st1] by (auto simp add: runAlgorithm_def)
  qed
  then obtain s where s: "s \<in> set ?av" "fst (runAlgorithm ?st1 ?av algorithm opts d) = Inr (Some s)"
    by blast
  obtain st2 where "runAlgorithm ?st1 ?av algorithm opts d = (Inr (Some s), st2)"
    using s(2) by (cases "runAlgorithm ?st1 ?av algorithm opts d") simp
  from selectStudent_run [OF assms(2) this] show ?thesis
    using s(1) by auto
qed

theorem every_policy_but_group_returns_a_member_witness:
  "TimeBalanced \<noteq> Group
   \<and> availableStudentsOf (constructor None) scenarioRoster TimeBalanced = scenarioRoster
   \<and> unitInterval (rnd1 drawHigh)
   \<and> (\<exists>s. s \<in> set scenarioRoster
          \<and> fst (selectStudent (constructor None) scenarioRoster TimeBalanced noOptions drawHigh)
              = Inr (Some s))
   \<and> fst (selectStudent (constructor None) scenarioRoster TimeBalanced noOptions drawHigh)
       = Inr (Some scenarioA)"
proof -
  have alg: "TimeBalanced \<noteq> Group" by simp
  have av: "availableStudentsOf (constructor None) scenarioRoster TimeBalanced = scenarioRoster"
    by (simp add: available_no_storage constructor_def)
  have ne: "availableStudentsOf (constructor None) scenarioRoster TimeBalanced \<noteq> []"
    unfolding av by (simp add: scenarioRoster_def)
  have u: "unitInterval (rnd1 drawHigh)"
    by code_simp
  have r: "fst (selectStudent (constructor None) scenarioRoster TimeBalanced noOptions drawHigh)
       = Inr (Some scenarioA)"
    by code_simp
  have "\<exists>s. s \<in> set scenarioRoster
          \<and> fst (selectStudent (constructor None) scenarioRoster TimeBalanced noOptions drawHigh)
              = Inr (Some s)"
    using every_policy_but_group_returns_a_member [OF alg ne u, of noOptions]
    unfolding av by blast
  then show ?thesis
    using alg av u r by blast
qed

text \<open>
  The batch selection returns an array of min(count, n) promises, whatever they are
  settled with, and leaves the repeat-avoidance setting as it found it.
\<close>

theorem batch_holds_promises_and_restores_flag:
  assumes "students \<noteq> []" and "0 < count"
  shows "length (fst (selectMultipleStudents st students count algorithm opts ds))
           = nat (min count (int (length students)))
         \<and> avoidImmediateRepeat (snd (selectMultipleStudents st students count algorithm opts ds))
           = avoidImmediateRepeat st"
proof -
  let ?loop = "selectLoop (nat (min count (int (length students)))) 0
                 (setAvoidImmediateRepeat True st) students algorithm opts ds []"
  obtain selected pool st2 where loop: "?loop = (selected, pool, st2)"
    by (cases ?loop) auto
  have "length selected = nat (min count (int (length students)))"
    using selectLoop_result [of "nat (min count (int (length students)))" 0
        "setAvoidImmediateRepeat True st" students algorithm opts ds "[]"] loop
    by simp
  then show ?thesis
    using assms loop by (simp add: selectMultipleStudents_def Let_def)
qed

theorem batch_holds_promises_and_restores_flag_witness:
  "rosterAB \<noteq> []
   \<and> length (fst (selectMultipleStudents engineAfterA rosterAB 2 Fair noOptions drawZeroEachCall))
       = 2
   \<and> avoidImmediateRepeat engineAfterA = True
   \<and> avoidImmediateRepeat
        (snd (selectMultipleStudents engineAfterA rosterAB 2 Fair noOptions drawZeroEachCall))
       = True"
proof -
  have ne: "rosterAB \<noteq> []" by (simp add: rosterAB_def)
  have len: "nat (min 2 (int (length rosterAB))) = 2" by (simp add: rosterAB_def)
  have flag: "avoidImmediateRepeat engineAfterA = True" by code_simp
  show ?thesis
    using batch_holds_promises_and_restores_flag
      [OF ne, where count = 2 and st = engineAfterA and algorithm = Fair
         and opts = noOptions and ds = drawZeroEachCall]
      ne len flag
    by simp
qed

subsection \<open>The rounding of the products\<close>

text \<open>
  The index is the floor of the product as the double holds it: the draw
  3752999689475413 / 2^52 on six students gives the index 5, where the exact product is
  below 5.
\<close>

theorem index_is_floor_of_the_rounded_product:
  "unitInterval (3752999689475413 / 2 ^ 52)
   \<and> (3752999689475413 / 2 ^ 52 :: rat) * 6 < 5
   \<and> toDouble (3752999689475413 / 2 ^ 52 * 6) = 5
   \<and> randomIndex (3752999689475413 / 2 ^ 52) 6 = 5"
  by code_simp

text \<open>
  The weighted walk starts from the product as the double holds it: with the draw
  3002399751580331 / 2^52 on the weights 1, 1, 1 the exact product is above 2, the double
  is 2, and the walk returns the second entity.
\<close>

theorem weighted_walk_starts_from_the_rounded_product:
  "unitInterval (3002399751580331 / 2 ^ 52)
   \<and> 2 < (3002399751580331 / 2 ^ 52 :: rat) * 3
   \<and> toDouble (3002399751580331 / 2 ^ 52 * 3) = 2
   \<and> selectByWeight [(studentA, 1), (studentB, 1), (studentC, 1)] (3002399751580331 / 2 ^ 52)
       = Inr (Some studentB)"
  by code_simp

end
